theory Spec2Isabelle
  imports Main "HOL-Library.Sublist" "HOL-Library.Char_ord" "HOL-Library.List_Lexorder"
    "HOL-Library.Multiset"
begin

section \<open>URL normalisation (scraper/extractors/__init__.py)\<close>

text \<open>
  Python's \<^verbatim>\<open>s.split(c)[0]\<close> is the part of \<open>s\<close> before the first \<open>c\<close> (all of
  \<open>s\<close> when \<open>c\<close> does not occur), and \<^verbatim>\<open>s.rstrip("/")\<close> removes every trailing
  slash.
\<close>

definition split_first :: "char \<Rightarrow> string \<Rightarrow> string" where
  "split_first c s = takeWhile (\<lambda>x. x \<noteq> c) s"

definition rstrip :: "char \<Rightarrow> string \<Rightarrow> string" where
  "rstrip c s = rev (dropWhile (\<lambda>x. x = c) (rev s))"

text \<open>\<^verbatim>\<open>Extractor._clean_url\<close>: \<^verbatim>\<open>url.split("?")[0].split("#")[0].rstrip("/")\<close>.\<close>

definition clean_url :: "string \<Rightarrow> string" where
  "clean_url url = rstrip (CHR ''/'') (split_first (CHR ''#'') (split_first (CHR ''?'') url))"

section \<open>Data model (scraper/models.py)\<close>

datatype mode = Fetch | Browser

datatype extract_method = ClickCopy | TextContent | InnerHtml | Custom

datatype operation = LinksOp | ContentOp

record links_config =
  startUrls :: "string list"
  pattern :: string
  waitFor :: "string option"
  maxDepth :: int

record content_config =
  content_mode :: "mode option"
  content_waitFor :: "string option"
  selector :: string
  extract_method :: extract_method

record site_config =
  name :: string
  baseUrl :: string
  site_mode :: mode
  extractor :: string
  links :: "links_config option"
  content :: "content_config option"

text \<open>
  \<^verbatim>\<open>ScrapeResult\<close>. The field \<open>error\<close> is \<^verbatim>\<open>str | None\<close>; an exception is
  represented throughout by its message \<^verbatim>\<open>str(e)\<close>.
\<close>

record scrape_result =
  site :: string
  operation :: operation
  success :: bool
  data :: "string list"
  error :: "string option"

section \<open>The environment of one call\<close>

text \<open>
  What the engine takes from outside the repository: the configuration file, the Python
  standard library (\<^verbatim>\<open>urllib.parse\<close>, \<^verbatim>\<open>str.strip\<close>, \<^verbatim>\<open>str\<close> of a list),
  the HTTP client and the browser. Each operation that can raise returns a sum, with
  \<open>Inl\<close> the message of the exception. A page of type \<open>'p\<close> is a live browser page.
  Within one call each operation is a function of its arguments: the loop requests a URL
  at most once, so no request is compared with a later one of the same URL.
\<close>

record url_parts =
  scheme :: string
  netloc :: string

record 'p env =
  sites_json :: "string + (string \<times> (string + site_config)) list"
  str_list :: "string list \<Rightarrow> string"
  py_strip :: "string \<Rightarrow> string"
  urlparse :: "string \<Rightarrow> string + url_parts"
  urljoin :: "string \<Rightarrow> string \<Rightarrow> string + string"
  fetch_html :: "string \<Rightarrow> string + string"
  browser_page :: "string \<Rightarrow> string option \<Rightarrow> string list \<Rightarrow> string + 'p"
  close_session :: "'p \<Rightarrow> string + unit"
  wait_for_selector :: "'p \<Rightarrow> string option \<Rightarrow> string + unit"
  eval_hrefs :: "'p \<Rightarrow> string + string list"
  click_and_read_clipboard :: "'p \<Rightarrow> string \<Rightarrow> string + string"
  text_contents :: "'p \<Rightarrow> string \<Rightarrow> string + string option list"
  inner_htmls :: "'p \<Rightarrow> string \<Rightarrow> string + string list"

datatype 'p page_or_html = Html string | Page 'p

section \<open>Extractors (scraper/extractors)\<close>

datatype extractor_class =
  DefaultExtractor | TerraformExtractor | ModalExtractor | ConvexExtractor
  | CursorExtractor | ClaudeCodeExtractor | UnslothExtractor

text \<open>The registry \<^verbatim>\<open>EXTRACTORS\<close>, in the order the modules are imported.\<close>

definition EXTRACTORS :: "(string \<times> extractor_class) list" where
  "EXTRACTORS =
    [(''default'', DefaultExtractor), (''terraform'', TerraformExtractor),
     (''modal'', ModalExtractor), (''convex'', ConvexExtractor),
     (''cursor'', CursorExtractor), (''claude_code'', ClaudeCodeExtractor),
     (''unsloth'', UnslothExtractor)]"

definition get_extractor :: "'p env \<Rightarrow> string \<Rightarrow> string + extractor_class" where
  "get_extractor env nm =
    (case map_of EXTRACTORS nm of
       None \<Rightarrow> Inl (''Unknown extractor: '' @ nm @ ''. Available: ''
                     @ str_list env (map fst EXTRACTORS))
     | Some cls \<Rightarrow> Inr cls)"

subsection \<open>Link extraction from markup (extractors/default.py)\<close>

definition dquote :: char where
  "dquote = CHR 0x22"

definition href_open :: string where
  "href_open = ''href='' @ [dquote]"

text \<open>
  \<^verbatim>\<open>re.finditer(r'href="([^"]*)"', html)\<close>, the captured groups from left to right. At a
  position where \<^verbatim>\<open>href="\<close> starts and a closing quote follows, the group is the text up
  to that quote and the scan resumes behind it; otherwise the scan moves one character on.
\<close>

function find_hrefs :: "string \<Rightarrow> string list" where
  "find_hrefs [] = []"
| "find_hrefs (c # cs) =
    (if prefix href_open (c # cs) \<and> dquote \<in> set (drop (length href_open) (c # cs))
     then takeWhile (\<lambda>x. x \<noteq> dquote) (drop (length href_open) (c # cs))
          # find_hrefs (tl (dropWhile (\<lambda>x. x \<noteq> dquote) (drop (length href_open) (c # cs))))
     else find_hrefs cs)"
  by pat_completeness auto
termination
proof (relation "measure length")
  fix c :: char and cs :: string
  have "length (tl (dropWhile (\<lambda>x. x \<noteq> dquote) (drop (length href_open) (c # cs))))
        \<le> length (drop (length href_open) (c # cs))"
    using length_dropWhile_le [of "\<lambda>x. x \<noteq> dquote" "drop (length href_open) (c # cs)"]
    by simp
  also have "\<dots> < length (c # cs)"
    by (simp add: href_open_def)
  finally show "(tl (dropWhile (\<lambda>x. x \<noteq> dquote) (drop (length href_open) (c # cs))), c # cs)
                \<in> measure length"
    by simp
qed simp_all

text \<open>Python's \<^verbatim>\<open>p in s\<close> on strings.\<close>

fun contains :: "string \<Rightarrow> string \<Rightarrow> bool" where
  "contains p [] = (p = [])"
| "contains p (c # cs) = (prefix p (c # cs) \<or> contains p cs)"

text \<open>The first half of the loop body: normalise the href, then make it absolute.\<close>

definition resolve_link :: "'p env \<Rightarrow> string \<Rightarrow> string \<Rightarrow> string + string" where
  "resolve_link env base_url href =
    (if prefix ''/'' (clean_url href) then
       (case urlparse env base_url of
          Inl e \<Rightarrow> Inl e
        | Inr parsed \<Rightarrow> Inr (scheme parsed @ ''://'' @ netloc parsed @ clean_url href))
     else if \<not> prefix ''http'' (clean_url href) then urljoin env base_url (clean_url href)
     else Inr (clean_url href))"

text \<open>The second half: the pattern filter and the same-domain test.\<close>

definition keep_link :: "'p env \<Rightarrow> string \<Rightarrow> string \<Rightarrow> string \<Rightarrow> string + bool" where
  "keep_link env base_url pat link =
    (if pat \<noteq> [] \<and> \<not> contains pat link then Inr False
     else (case urlparse env link of
             Inl e \<Rightarrow> Inl e
           | Inr pl \<Rightarrow> (case urlparse env base_url of
                          Inl e \<Rightarrow> Inl e
                        | Inr pb \<Rightarrow> Inr (netloc pl = netloc pb))))"

fun collect_links :: "'p env \<Rightarrow> string \<Rightarrow> string \<Rightarrow> string list \<Rightarrow> string set \<Rightarrow> string + string set"
where
  "collect_links env base_url pat [] acc = Inr acc"
| "collect_links env base_url pat (href # hrefs) acc =
    (case resolve_link env base_url href of
       Inl e \<Rightarrow> Inl e
     | Inr link \<Rightarrow>
         (case keep_link env base_url pat link of
            Inl e \<Rightarrow> Inl e
          | Inr keep \<Rightarrow>
              collect_links env base_url pat hrefs (if keep then insert link acc else acc)))"

text \<open>\<^verbatim>\<open>DefaultExtractor._extract_links_from_html\<close>.\<close>

definition extract_links_from_html :: "'p env \<Rightarrow> string \<Rightarrow> string \<Rightarrow> string \<Rightarrow> string + string list"
where
  "extract_links_from_html env html base_url pat =
    (case collect_links env base_url pat (find_hrefs html) {} of
       Inl e \<Rightarrow> Inl e
     | Inr acc \<Rightarrow> Inr (sorted_list_of_set acc))"

subsection \<open>Link extraction from a live page\<close>

text \<open>The loop of \<^verbatim>\<open>DefaultExtractor._extract_links_from_page\<close> over the hrefs of the page.\<close>

fun collect_page_links :: "'p env \<Rightarrow> string \<Rightarrow> string \<Rightarrow> string list \<Rightarrow> string set \<Rightarrow> string + string set"
where
  "collect_page_links env base_url pat [] acc = Inr acc"
| "collect_page_links env base_url pat (raw # raws) acc =
    (if pat \<noteq> [] \<and> \<not> contains pat (clean_url raw)
     then collect_page_links env base_url pat raws acc
     else if prefix base_url (clean_url raw)
     then collect_page_links env base_url pat raws (insert (clean_url raw) acc)
     else (case urlparse env (clean_url raw) of
             Inl e \<Rightarrow> Inl e
           | Inr pl \<Rightarrow>
               (case urlparse env base_url of
                  Inl e \<Rightarrow> Inl e
                | Inr pb \<Rightarrow>
                    collect_page_links env base_url pat raws
                      (if netloc pl = netloc pb then insert (clean_url raw) acc else acc))))"

definition extract_links_from_page :: "'p env \<Rightarrow> 'p \<Rightarrow> string \<Rightarrow> string \<Rightarrow> string + string list"
where
  "extract_links_from_page env page base_url pat =
    (case eval_hrefs env page of
       Inl e \<Rightarrow> Inl e
     | Inr raw_links \<Rightarrow>
         (case collect_page_links env base_url pat raw_links {} of
            Inl e \<Rightarrow> Inl e
          | Inr acc \<Rightarrow> Inr (sorted_list_of_set acc)))"

text \<open>
  \<^verbatim>\<open>TerraformExtractor.extract_links\<close> on a page. The cookie-banner hook swallows every
  exception and returns nothing, so it leaves no branch here. The dictionary always has
  the key \<^verbatim>\<open>waitFor\<close>, so \<^verbatim>\<open>config.get("waitFor", ...)\<close> is the configured value,
  \<^verbatim>\<open>None\<close> included.
\<close>

definition terraform_links_from_page :: "'p env \<Rightarrow> 'p \<Rightarrow> string \<Rightarrow> string option \<Rightarrow> string + string list"
where
  "terraform_links_from_page env page base_url wait_for =
    (case wait_for_selector env page wait_for of
       Inl e \<Rightarrow> Inl e
     | Inr _ \<Rightarrow>
         (case eval_hrefs env page of
            Inl e \<Rightarrow> Inl e
          | Inr raw_links \<Rightarrow>
              Inr (sorted_list_of_set
                    (set (filter (prefix base_url) (map clean_url raw_links))))))"

text \<open>
  \<^verbatim>\<open>extract_links\<close> of each class; the second and third arguments are the entries
  \<^verbatim>\<open>baseUrl\<close> and the links configuration of the dictionary the engine passes.
\<close>

definition extract_links ::
  "'p env \<Rightarrow> extractor_class \<Rightarrow> 'p page_or_html \<Rightarrow> string \<Rightarrow> links_config \<Rightarrow> string + string list"
where
  "extract_links env cls page_or_html base_url lc =
    (case cls of
       TerraformExtractor \<Rightarrow>
         (case page_or_html of
            Html html \<Rightarrow> Inl ''TerraformExtractor requires browser mode for link extraction''
          | Page page \<Rightarrow> terraform_links_from_page env page base_url (waitFor lc))
     | _ \<Rightarrow>
         (case page_or_html of
            Html html \<Rightarrow> extract_links_from_html env html base_url (pattern lc)
          | Page page \<Rightarrow> extract_links_from_page env page base_url (pattern lc)))"

subsection \<open>Content extraction\<close>

definition click_copy :: "'p env \<Rightarrow> 'p \<Rightarrow> string \<Rightarrow> string + string list" where
  "click_copy env page sel =
    (case click_and_read_clipboard env page sel of
       Inl e \<Rightarrow> Inl e
     | Inr text \<Rightarrow> Inr (if text \<noteq> [] then [text] else []))"

definition text_content :: "'p env \<Rightarrow> 'p \<Rightarrow> string \<Rightarrow> string + string list" where
  "text_content env page sel =
    (case text_contents env page sel of
       Inl e \<Rightarrow> Inl e
     | Inr texts \<Rightarrow>
         Inr (map (\<lambda>t. case t of None \<Rightarrow> [] | Some x \<Rightarrow> if x \<noteq> [] then py_strip env x else [])
                  texts))"

definition inner_html :: "'p env \<Rightarrow> 'p \<Rightarrow> string \<Rightarrow> string + string list" where
  "inner_html env page sel =
    (case inner_htmls env page sel of
       Inl e \<Rightarrow> Inl e
     | Inr htmls \<Rightarrow> Inr (map (\<lambda>h. if h \<noteq> [] then py_strip env h else []) htmls))"

text \<open>The copy-button classes wait for the button, then click it.\<close>

definition wait_then_click_copy :: "'p env \<Rightarrow> 'p \<Rightarrow> string \<Rightarrow> string + string list" where
  "wait_then_click_copy env page sel =
    (case wait_for_selector env page (Some sel) of
       Inl e \<Rightarrow> Inl e
     | Inr _ \<Rightarrow> click_copy env page sel)"

definition terraform_content_from_page :: "'p env \<Rightarrow> 'p \<Rightarrow> string \<Rightarrow> string + string list" where
  "terraform_content_from_page env page sel =
    (case wait_for_selector env page (Some sel) of
       Inl e \<Rightarrow> Inl e
     | Inr _ \<Rightarrow> inner_html env page sel)"

definition extract_content ::
  "'p env \<Rightarrow> extractor_class \<Rightarrow> 'p page_or_html \<Rightarrow> content_config \<Rightarrow> string + string list"
where
  "extract_content env cls page_or_html cc =
    (case cls of
       TerraformExtractor \<Rightarrow>
         (case page_or_html of
            Html html \<Rightarrow> Inl ''TerraformExtractor requires browser mode for content extraction''
          | Page page \<Rightarrow> terraform_content_from_page env page (selector cc))
     | DefaultExtractor \<Rightarrow>
         (case page_or_html of
            Html html \<Rightarrow> Inr [html]
          | Page page \<Rightarrow>
              (if extract_method cc = ClickCopy then click_copy env page (selector cc)
               else if extract_method cc = TextContent then text_content env page (selector cc)
               else inner_html env page (selector cc)))
     | _ \<Rightarrow>
         (case page_or_html of
            Html html \<Rightarrow> Inr [html]
          | Page page \<Rightarrow> wait_then_click_copy env page (selector cc)))"

section \<open>The link discovery loop (scraper/core.py, scrape_links)\<close>

text \<open>
  The state of the fetch-mode loop. \<open>fetched\<close> is a ghost field: the batch entries whose
  URLs were handed to \<^verbatim>\<open>fetch_html\<close>, in order.
\<close>

record crawl_state =
  to_visit :: "(string \<times> int) list"
  visited :: "string set"
  all_links :: "string set"
  fetched :: "(string \<times> int) list"

text \<open>The inner \<^verbatim>\<open>while to_visit and len(batch) < 10\<close> loop.\<close>

fun take_batch ::
  "int \<Rightarrow> (string \<times> int) list \<Rightarrow> string set \<Rightarrow> (string \<times> int) list
   \<Rightarrow> (string \<times> int) list \<times> string set \<times> (string \<times> int) list"
where
  "take_batch max_depth [] vis batch = ([], vis, batch)"
| "take_batch max_depth ((url, depth) # rest) vis batch =
    (if length batch < 10 then
       (if url \<notin> vis \<and> depth \<le> max_depth
        then take_batch max_depth rest (insert url vis) (batch @ [(url, depth)])
        else take_batch max_depth rest vis batch)
     else ((url, depth) # rest, vis, batch))"

text \<open>The body of \<^verbatim>\<open>for link in links\<close>.\<close>

definition add_link ::
  "int \<Rightarrow> string set \<Rightarrow> int \<Rightarrow> string \<Rightarrow> (string \<times> int) list \<times> string set
   \<Rightarrow> (string \<times> int) list \<times> string set"
where
  "add_link max_depth vis depth link st =
    (if depth < max_depth \<and> link \<notin> vis then fst st @ [(link, depth + 1)] else fst st,
     insert link (snd st))"

text \<open>
  The loop over the batch and its results. A failed fetch is skipped; an exception of the
  extractor leaves the loop.
\<close>

fun process_batch ::
  "(string \<Rightarrow> string + string) \<Rightarrow> (string \<Rightarrow> string + string list) \<Rightarrow> int \<Rightarrow> string set
   \<Rightarrow> (string \<times> int) list \<Rightarrow> (string \<times> int) list \<times> string set
   \<Rightarrow> string + (string \<times> int) list \<times> string set"
where
  "process_batch fetch extract max_depth vis [] st = Inr st"
| "process_batch fetch extract max_depth vis ((url, depth) # rest) st =
    (case fetch url of
       Inl e \<Rightarrow> process_batch fetch extract max_depth vis rest st
     | Inr html \<Rightarrow>
         (case extract html of
            Inl e \<Rightarrow> Inl e
          | Inr found \<Rightarrow>
              process_batch fetch extract max_depth vis rest
                (fold (add_link max_depth vis depth) found st)))"

text \<open>One iteration of the outer \<^verbatim>\<open>while to_visit\<close> loop.\<close>

definition crawl_step ::
  "(string \<Rightarrow> string + string) \<Rightarrow> (string \<Rightarrow> string + string list) \<Rightarrow> int
   \<Rightarrow> crawl_state \<Rightarrow> string + crawl_state"
where
  "crawl_step fetch extract max_depth st =
    (case take_batch max_depth (to_visit st) (visited st) [] of
       (rest, vis, batch) \<Rightarrow>
         (if batch = [] then Inr (st\<lparr>to_visit := rest, visited := vis\<rparr>)
          else (case process_batch fetch extract max_depth vis batch (rest, all_links st) of
                  Inl e \<Rightarrow> Inl e
                | Inr (queue, found) \<Rightarrow>
                    Inr \<lparr>to_visit = queue, visited = vis, all_links = found,
                         fetched = fetched st @ batch\<rparr>)))"

lemma take_batch_removed:
  "take_batch md tv vis b = (rest, vis', batch) \<Longrightarrow>
   \<exists>removed. tv = removed @ rest
     \<and> (length b < 10 \<and> tv \<noteq> [] \<longrightarrow> removed \<noteq> [])
     \<and> set batch \<subseteq> set b \<union> set removed"
proof (induction md tv vis b arbitrary: rest vis' batch rule: take_batch.induct)
  case (1 md vis b)
  then show ?case by simp
next
  case (2 md url depth tv vis b)
  show ?case
  proof (cases "length b < 10")
    case False
    with "2.prems" show ?thesis by auto
  next
    case True
    show ?thesis
    proof (cases "url \<notin> vis \<and> depth \<le> md")
      case True
      with \<open>length b < 10\<close> "2.prems"
      have "take_batch md tv (insert url vis) (b @ [(url, depth)]) = (rest, vis', batch)" by simp
      from "2.IH"(1) [OF \<open>length b < 10\<close> True this]
      obtain removed where "tv = removed @ rest" "set batch \<subseteq> set (b @ [(url, depth)]) \<union> set removed"
        by blast
      then have "(url, depth) # tv = ((url, depth) # removed) @ rest
          \<and> (length b < 10 \<and> (url, depth) # tv \<noteq> [] \<longrightarrow> (url, depth) # removed \<noteq> [])
          \<and> set batch \<subseteq> set b \<union> set ((url, depth) # removed)" by auto
      then show ?thesis by blast
    next
      case False
      with \<open>length b < 10\<close> "2.prems"
      have "take_batch md tv vis b = (rest, vis', batch)" by auto
      from "2.IH"(2) [OF \<open>length b < 10\<close> False this]
      obtain removed where "tv = removed @ rest" "set batch \<subseteq> set b \<union> set removed"
        by blast
      then have "(url, depth) # tv = ((url, depth) # removed) @ rest
          \<and> (length b < 10 \<and> (url, depth) # tv \<noteq> [] \<longrightarrow> (url, depth) # removed \<noteq> [])
          \<and> set batch \<subseteq> set b \<union> set ((url, depth) # removed)" by auto
      then show ?thesis by blast
    qed
  qed
qed

lemma fold_add_link:
  "fold (add_link md vis d) found st =
     (fst st @ map (\<lambda>l. (l, d + 1)) (filter (\<lambda>l. d < md \<and> l \<notin> vis) found),
      snd st \<union> set found)"
  by (induction found arbitrary: st) (auto simp: add_link_def)

lemma process_batch_appends:
  "process_batch fetch extr md vis batch st = Inr st' \<Longrightarrow>
   \<exists>added. fst st' = fst st @ added
     \<and> (\<forall>(l, d') \<in> set added. \<exists>(u, d) \<in> set batch. d < md \<and> d' = d + 1)"
proof (induction fetch extr md vis batch st arbitrary: st' rule: process_batch.induct)
  case (1 fetch extr md vis st)
  then show ?case by simp
next
  case (2 fetch extr md vis url depth rest st)
  show ?case
  proof (cases "fetch url")
    case (Inl e)
    with "2.prems" have "process_batch fetch extr md vis rest st = Inr st'" by simp
    from "2.IH"(1) [OF Inl this] show ?thesis by fastforce
  next
    case (Inr html)
    with "2.prems" obtain found where xl: "extr html = Inr found"
      and run: "process_batch fetch extr md vis rest (fold (add_link md vis depth) found st) = Inr st'"
      by (auto split: sum.splits)
    from "2.IH"(2) [OF Inr xl run] obtain added where
      a: "fst st' = fst (fold (add_link md vis depth) found st) @ added"
      and b: "\<forall>(l, d') \<in> set added. \<exists>(u, d) \<in> set rest. d < md \<and> d' = d + 1"
      by blast
    let ?new = "map (\<lambda>l. (l, depth + 1)) (filter (\<lambda>l. depth < md \<and> l \<notin> vis) found)"
    from a have "fst st' = fst st @ (?new @ added)"
      by (simp add: fold_add_link)
    moreover have "\<forall>(l, d') \<in> set (?new @ added). \<exists>(u, d) \<in> set ((url, depth) # rest). d < md \<and> d' = d + 1"
      using b by fastforce
    ultimately show ?thesis by blast
  qed
qed

definition remaining :: "int \<Rightarrow> (string \<times> int) list \<Rightarrow> nat multiset" where
  "remaining md tv = mset (map (\<lambda>e. nat (md - snd e)) tv)"

lemma crawl_step_decreases:
  assumes "to_visit st \<noteq> []" and "crawl_step fetch extr md st = Inr st'"
  shows "(remaining md (to_visit st'), remaining md (to_visit st)) \<in> mult {(a, b). a < b}"
proof -
  obtain rest vis batch where tb: "take_batch md (to_visit st) (visited st) [] = (rest, vis, batch)"
    by (metis prod_cases3)
  from take_batch_removed [OF tb] assms(1) obtain removed where
    rem: "to_visit st = removed @ rest" "removed \<noteq> []" "set batch \<subseteq> set removed"
    by auto
  have "\<exists>added. to_visit st' = rest @ added
      \<and> (\<forall>(l, d') \<in> set added. \<exists>(u, d) \<in> set batch. d < md \<and> d' = d + 1)"
  proof (cases "batch = []")
    case True
    with assms(2) tb have "to_visit st' = rest" by (auto simp: crawl_step_def)
    then show ?thesis by auto
  next
    case False
    with assms(2) tb obtain queue found where
      pb: "process_batch fetch extr md vis batch (rest, all_links st) = Inr (queue, found)"
      and st': "to_visit st' = queue"
      by (auto simp: crawl_step_def split: sum.splits)
    from process_batch_appends [OF pb] st' show ?thesis by simp
  qed
  then obtain added where add: "to_visit st' = rest @ added"
    and small: "\<forall>(l, d') \<in> set added. \<exists>(u, d) \<in> set batch. d < md \<and> d' = d + 1"
    by blast
  have "(remaining md rest + remaining md added, remaining md rest + remaining md removed)
        \<in> mult {(a, b). a < b}"
  proof (rule one_step_implies_mult)
    show "remaining md removed \<noteq> {#}" using rem(2) by (simp add: remaining_def)
    show "\<forall>k \<in> set_mset (remaining md added). \<exists>j \<in> set_mset (remaining md removed). (k, j) \<in> {(a, b). a < b}"
    proof
      fix k assume "k \<in> set_mset (remaining md added)"
      then obtain l d' where ld: "(l, d') \<in> set added" "k = nat (md - d')"
        by (auto simp: remaining_def)
      with small obtain u d where ud: "(u, d) \<in> set batch" "d < md" "d' = d + 1" by fastforce
      with rem(3) have "nat (md - d) \<in> set_mset (remaining md removed)"
        by (force simp: remaining_def)
      moreover from ld ud have "k < nat (md - d)" by simp
      ultimately show "\<exists>j \<in> set_mset (remaining md removed). (k, j) \<in> {(a, b). a < b}" by blast
    qed
  qed
  then show ?thesis
    by (simp add: rem(1) add remaining_def add.commute)
qed

text \<open>The outer loop. It ends: every entry a step appends is deeper than a batch entry the step removed.\<close>

function crawl_loop ::
  "(string \<Rightarrow> string + string) \<Rightarrow> (string \<Rightarrow> string + string list) \<Rightarrow> int
   \<Rightarrow> crawl_state \<Rightarrow> string + crawl_state"
where
  "crawl_loop fetch extract max_depth st =
    (if to_visit st = [] then Inr st
     else (case crawl_step fetch extract max_depth st of
             Inl e \<Rightarrow> Inl e
           | Inr st' \<Rightarrow> crawl_loop fetch extract max_depth st'))"
  by pat_completeness auto

termination
proof (relation "inv_image (mult {(a, b). a < b}) (\<lambda>(fetch, extr, md, st). remaining md (to_visit st))")
  show "wf (inv_image (mult {(a, b). a < b}) (\<lambda>(fetch, extr, md, st). remaining md (to_visit st)))"
    by (simp add: wf_mult wf_less wf_inv_image)
next
  fix fetch :: "string \<Rightarrow> string + string" and extr :: "string \<Rightarrow> string + string list"
    and max_depth :: int and st st' :: crawl_state
  assume "to_visit st \<noteq> []" "crawl_step fetch extr max_depth st = Inr st'"
  then show "((fetch, extr, max_depth, st'), fetch, extr, max_depth, st)
    \<in> inv_image (mult {(a, b). a < b}) (\<lambda>(fetch, extr, md, st). remaining md (to_visit st))"
    using crawl_step_decreases by simp
qed

declare crawl_loop.simps [simp del]

section \<open>The public operations (scraper/core.py)\<close>

definition load_site_config :: "'p env \<Rightarrow> string \<Rightarrow> string + site_config" where
  "load_site_config env site_id =
    (case sites_json env of
       Inl e \<Rightarrow> Inl e
     | Inr sites \<Rightarrow>
         (case map_of sites site_id of
            None \<Rightarrow> Inl (''Unknown site: '' @ site_id @ ''. Available: ''
                          @ str_list env (map fst sites))
          | Some validated \<Rightarrow> validated))"

definition failure :: "operation \<Rightarrow> string \<Rightarrow> string \<Rightarrow> scrape_result" where
  "failure opn site_id msg =
    \<lparr>site = site_id, operation = opn, success = False, data = [], error = Some msg\<rparr>"

text \<open>
  \<^verbatim>\<open>async with browser_page(...) as page\<close>: the session is opened, the body runs, and
  the session is closed on every path; an exception of the closing replaces the outcome.
\<close>

definition with_browser_page ::
  "'p env \<Rightarrow> string \<Rightarrow> string option \<Rightarrow> string list \<Rightarrow> ('p \<Rightarrow> string + 'a) \<Rightarrow> string + 'a"
where
  "with_browser_page env url wait_for permissions body =
    (case browser_page env url wait_for permissions of
       Inl e \<Rightarrow> Inl e
     | Inr page \<Rightarrow>
         (let outcome = body page
          in (case close_session env page of
                Inl e \<Rightarrow> Inl e
              | Inr _ \<Rightarrow> outcome)))"

definition start_urls :: "site_config \<Rightarrow> links_config \<Rightarrow> string list" where
  "start_urls config lc =
    map (\<lambda>path. if path \<noteq> [] then baseUrl config @ path else baseUrl config) (startUrls lc)"

definition initial_state :: "string list \<Rightarrow> crawl_state" where
  "initial_state urls =
    \<lparr>to_visit = map (\<lambda>url. (url, 0)) urls, visited = {}, all_links = {}, fetched = []\<rparr>"

text \<open>The fetch-mode branch of \<^verbatim>\<open>scrape_links\<close>.\<close>

definition crawl :: "'p env \<Rightarrow> extractor_class \<Rightarrow> site_config \<Rightarrow> links_config \<Rightarrow> string + crawl_state"
where
  "crawl env cls config lc =
    crawl_loop (fetch_html env)
      (\<lambda>html. extract_links env cls (Html html) (baseUrl config) lc)
      (maxDepth lc) (initial_state (start_urls config lc))"

text \<open>The browser-mode branch: one page, the first start URL.\<close>

definition render_links :: "'p env \<Rightarrow> extractor_class \<Rightarrow> site_config \<Rightarrow> links_config \<Rightarrow> string + string list"
where
  "render_links env cls config lc =
    with_browser_page env
      (baseUrl config @ (case startUrls lc of [] \<Rightarrow> [] | path # _ \<Rightarrow> path))
      (waitFor lc) []
      (\<lambda>page. extract_links env cls (Page page) (baseUrl config) lc)"

text \<open>The body of \<^verbatim>\<open>scrape_links\<close> after the configuration checks: the set \<^verbatim>\<open>all_links\<close>.\<close>

definition discover_links :: "'p env \<Rightarrow> extractor_class \<Rightarrow> site_config \<Rightarrow> links_config \<Rightarrow> string + string set"
where
  "discover_links env cls config lc =
    (if site_mode config = Fetch
     then (case crawl env cls config lc of Inl e \<Rightarrow> Inl e | Inr st \<Rightarrow> Inr (all_links st))
     else (case render_links env cls config lc of Inl e \<Rightarrow> Inl e | Inr found \<Rightarrow> Inr (set found)))"

definition scrape_links :: "'p env \<Rightarrow> string \<Rightarrow> scrape_result" where
  "scrape_links env site_id =
    (case load_site_config env site_id of
       Inl e \<Rightarrow> failure LinksOp site_id e
     | Inr config \<Rightarrow>
         (case get_extractor env (extractor config) of
            Inl e \<Rightarrow> failure LinksOp site_id e
          | Inr cls \<Rightarrow>
              (case links config of
                 None \<Rightarrow> failure LinksOp site_id ''Site has no links configuration''
               | Some lc \<Rightarrow>
                   (case discover_links env cls config lc of
                      Inl e \<Rightarrow> failure LinksOp site_id e
                    | Inr found \<Rightarrow>
                        \<lparr>site = site_id, operation = LinksOp, success = True,
                         data = sorted_list_of_set found, error = None\<rparr>))))"

text \<open>The calls \<^verbatim>\<open>scrape_content\<close> makes to the two executors, as a ghost trace.\<close>

datatype executor_call =
  FetchCall string
  | RenderCall string "string option" "string list"

text \<open>\<^verbatim>\<open>config.content.mode or config.mode\<close>.\<close>

definition effective_mode :: "site_config \<Rightarrow> content_config \<Rightarrow> mode" where
  "effective_mode config cc =
    (case content_mode cc of None \<Rightarrow> site_mode config | Some m \<Rightarrow> m)"

definition content_permissions :: "content_config \<Rightarrow> string list" where
  "content_permissions cc =
    (if extract_method cc = ClickCopy then [''clipboard-read'', ''clipboard-write''] else [])"

text \<open>
  The body of \<^verbatim>\<open>scrape_content\<close> after the configuration checks: the content, or the
  message of the exception, and the executor calls made.
\<close>

definition page_content ::
  "'p env \<Rightarrow> extractor_class \<Rightarrow> site_config \<Rightarrow> content_config \<Rightarrow> string
   \<Rightarrow> (string + string list) \<times> executor_call list"
where
  "page_content env cls config cc path =
    (if effective_mode config cc = Fetch
     then ((case fetch_html env (baseUrl config @ path) of
              Inl e \<Rightarrow> Inl e
            | Inr html \<Rightarrow> extract_content env cls (Html html) cc),
           [FetchCall (baseUrl config @ path)])
     else (with_browser_page env (baseUrl config @ path) (content_waitFor cc)
             (content_permissions cc)
             (\<lambda>page. extract_content env cls (Page page) cc),
           [RenderCall (baseUrl config @ path) (content_waitFor cc) (content_permissions cc)]))"

definition scrape_content_traced :: "'p env \<Rightarrow> string \<Rightarrow> string \<Rightarrow> scrape_result \<times> executor_call list"
where
  "scrape_content_traced env site_id path =
    (case load_site_config env site_id of
       Inl e \<Rightarrow> (failure ContentOp site_id e, [])
     | Inr config \<Rightarrow>
         (case get_extractor env (extractor config) of
            Inl e \<Rightarrow> (failure ContentOp site_id e, [])
          | Inr cls \<Rightarrow>
              (case content config of
                 None \<Rightarrow> (failure ContentOp site_id ''Site has no content configuration'', [])
               | Some cc \<Rightarrow>
                   (case page_content env cls config cc path of
                      (Inl e, calls) \<Rightarrow> (failure ContentOp site_id e, calls)
                    | (Inr found, calls) \<Rightarrow>
                        (\<lparr>site = site_id, operation = ContentOp, success = True,
                          data = found, error = None\<rparr>, calls)))))"

definition scrape_content :: "'p env \<Rightarrow> string \<Rightarrow> string \<Rightarrow> scrape_result" where
  "scrape_content env site_id path = fst (scrape_content_traced env site_id path)"

section \<open>Vocabulary for the properties of the loop\<close>

text \<open>
  The links the engine obtains from a URL: those the extractor finds in the fetched
  markup, none when the fetch fails.
\<close>

definition page_links :: "(string \<Rightarrow> string + string) \<Rightarrow> (string \<Rightarrow> string + string list) \<Rightarrow> string \<Rightarrow> string list" where
  "page_links fetch extract url =
    (case fetch url of
       Inl e \<Rightarrow> []
     | Inr html \<Rightarrow> (case extract html of Inl e \<Rightarrow> [] | Inr found \<Rightarrow> found))"

text \<open>One hop of the link graph the engine sees.\<close>

definition links_to :: "(string \<Rightarrow> string + string) \<Rightarrow> (string \<Rightarrow> string + string list) \<Rightarrow> (string \<times> string) set" where
  "links_to fetch extract = {(u, v). v \<in> set (page_links fetch extract u)}"

text \<open>The states the outer loop passes through, from a given initial state.\<close>

inductive_set crawl_states ::
  "(string \<Rightarrow> string + string) \<Rightarrow> (string \<Rightarrow> string + string list) \<Rightarrow> int \<Rightarrow> crawl_state
   \<Rightarrow> crawl_state set"
  for fetch :: "string \<Rightarrow> string + string" and extr :: "string \<Rightarrow> string + string list"
    and max_depth :: int and init :: crawl_state
where
  start: "init \<in> crawl_states fetch extr max_depth init"
| step: "st \<in> crawl_states fetch extr max_depth init \<Longrightarrow> to_visit st \<noteq> []
         \<Longrightarrow> crawl_step fetch extr max_depth st = Inr st'
         \<Longrightarrow> st' \<in> crawl_states fetch extr max_depth init"

section \<open>A concrete environment for running scenarios\<close>

text \<open>
  Modelled from the documentation of \<^verbatim>\<open>urllib.parse.urlparse\<close>, which is not part of the
  repository: the scheme is the text before the first colon when that text is made of
  scheme characters, and the network location is the text between a leading \<^verbatim>\<open>//\<close> and
  the next \<^verbatim>\<open>/\<close>, \<^verbatim>\<open>?\<close> or \<^verbatim>\<open>#\<close>. It covers ASCII URLs with a lower-case scheme and
  no brackets, and is used only to run the engine on concrete sites.
\<close>

definition scheme_chars :: string where
  "scheme_chars = ''abcdefghijklmnopqrstuvwxyz0123456789+-.''"

definition simple_urlparse :: "string \<Rightarrow> string + url_parts" where
  "simple_urlparse url =
    (let s = takeWhile (\<lambda>c. c \<noteq> CHR '':'') url;
         r = dropWhile (\<lambda>c. c \<noteq> CHR '':'') url;
         has_scheme = (r \<noteq> [] \<and> s \<noteq> [] \<and> list_all (\<lambda>c. List.member scheme_chars c) s);
         rest = (if has_scheme then tl r else url)
     in Inr \<lparr>scheme = (if has_scheme then s else []),
             netloc = (if prefix ''//'' rest
                       then takeWhile (\<lambda>c. \<not> List.member ''/?#'' c) (drop 2 rest)
                       else [])\<rparr>)"

text \<open>
  A static site: \<open>sites\<close> is the configuration file, \<open>pages\<close> maps a URL to the markup
  the HTTP client returns for it (any other URL fails with status 404), and \<open>rendered\<close>
  maps a URL to the inner markup of the elements a selector matches on the rendered
  page. A page is represented by its URL. \<^verbatim>\<open>urljoin\<close> is modelled on the empty
  reference only, where it returns the base.
\<close>

definition static_site ::
  "(string \<times> (string + site_config)) list \<Rightarrow> (string \<times> string) list
   \<Rightarrow> (string \<times> string list) list \<Rightarrow> string env"
where
  "static_site sites pages rendered =
    \<lparr>sites_json = Inr sites,
     str_list = (\<lambda>xs. concat (map (\<lambda>x. x @ '' '') xs)),
     py_strip = (\<lambda>s. s),
     urlparse = simple_urlparse,
     urljoin = (\<lambda>base ref. if ref = [] then Inr base else Inl ''urljoin: reference not modelled''),
     fetch_html = (\<lambda>url. case map_of pages url of
                            None \<Rightarrow> Inl ''Client error 404 Not Found''
                          | Some html \<Rightarrow> Inr html),
     browser_page = (\<lambda>url wait_for permissions.
                       if url \<in> fst ` set rendered then Inr url
                       else Inl ''net::ERR_NAME_NOT_RESOLVED''),
     close_session = (\<lambda>page. Inr ()),
     wait_for_selector = (\<lambda>page sel. Inr ()),
     eval_hrefs = (\<lambda>page. Inr []),
     click_and_read_clipboard = (\<lambda>page sel. Inr []),
     text_contents = (\<lambda>page sel. Inr []),
     inner_htmls = (\<lambda>page sel. case map_of rendered page of
                                   None \<Rightarrow> Inr []
                                 | Some htmls \<Rightarrow> Inr htmls)\<rparr>"

text \<open>An anchor element with the given href.\<close>

definition anchor :: "string \<Rightarrow> string" where
  "anchor href = ''<a '' @ href_open @ href @ [dquote] @ ''>x</a>''"

text \<open>The site of the scenario: one seed path, pattern \<^verbatim>\<open>/guide\<close>, the given depth.\<close>

definition docs_a :: "int \<Rightarrow> string list \<Rightarrow> site_config" where
  "docs_a max_depth seeds =
    \<lparr>name = ''docs-a'', baseUrl = ''https://docs-a.test'', site_mode = Fetch,
     extractor = ''default'',
     links = Some \<lparr>startUrls = seeds, pattern = ''/guide'', waitFor = None,
                   maxDepth = max_depth\<rparr>,
     content = Some \<lparr>content_mode = None, content_waitFor = None, selector = ''body'',
                     extract_method = InnerHtml\<rparr>\<rparr>"

text \<open>The same site with a content configuration that overrides the mode.\<close>

definition docs_a_rendered :: site_config where
  "docs_a_rendered =
    (docs_a 1 [''''])\<lparr>content := Some \<lparr>content_mode = Some Browser, content_waitFor = None,
                                        selector = ''article'', extract_method = InnerHtml\<rparr>\<rparr>"

text \<open>Two seed pages that link to each other and to one third page.\<close>

definition two_seeds :: "string env" where
  "two_seeds =
    static_site [(''docs-a'', Inr (docs_a 0 [''/guide/b'', ''/guide/a'']))]
      [(''https://docs-a.test/guide/a'', anchor ''/guide/c'' @ anchor ''/guide/b''),
       (''https://docs-a.test/guide/b'', anchor ''/guide/c?x=1'' @ anchor ''/guide/a'')] []"

text \<open>A site in fetch mode that names the Terraform extractor.\<close>

definition registry_site :: site_config where
  "registry_site =
    \<lparr>name = ''registry'', baseUrl = ''https://registry.test'', site_mode = Fetch,
     extractor = ''terraform'',
     links = Some \<lparr>startUrls = [''/docs''], pattern = ''/docs'', waitFor = None,
                   maxDepth = 0\<rparr>,
     content = Some \<lparr>content_mode = None, content_waitFor = None,
                     selector = ''#provider-docs-content'', extract_method = InnerHtml\<rparr>\<rparr>"

text \<open>The URLs that a path of at most \<open>k\<close> hops reaches from a seed.\<close>

definition within_hops :: "(string \<times> string) set \<Rightarrow> string list \<Rightarrow> int \<Rightarrow> string set" where
  "within_hops R seeds k = {u. \<exists>s \<in> set seeds. \<exists>n. int n \<le> k \<and> (s, u) \<in> R ^^ n}"

text \<open>The links configuration of \<open>docs_a\<close>.\<close>

definition guide_links :: "int \<Rightarrow> string list \<Rightarrow> links_config" where
  "guide_links max_depth seeds =
    \<lparr>startUrls = seeds, pattern = ''/guide'', waitFor = None, maxDepth = max_depth\<rparr>"

text \<open>A chain of four pages, each linking to the next, crawled from the first to depth 1.\<close>

definition chain_site :: "string env" where
  "chain_site =
    static_site [(''docs-a'', Inr (docs_a 1 [''/guide/a'']))]
      [(''https://docs-a.test/guide/a'', anchor ''/guide/b''),
       (''https://docs-a.test/guide/b'', anchor ''/guide/c''),
       (''https://docs-a.test/guide/c'', anchor ''/guide/d''),
       (''https://docs-a.test/guide/d'', [])] []"

definition chain_extract :: "string \<Rightarrow> string + string list" where
  "chain_extract html =
    extract_links chain_site DefaultExtractor (Html html) ''https://docs-a.test''
      (guide_links 1 [''/guide/a''])"


text \<open>The page at the base URL of the scenario.\<close>

definition docs_a_home :: string where
  "docs_a_home =
    anchor ''/guide/intro'' @ anchor ''/blog'' @ anchor ''https://other.test/guide/x''"

text \<open>The site with that page alone, and the site where the linked page links further.\<close>

definition lone_site :: "string env" where
  "lone_site =
    static_site [(''docs-a'', Inr (docs_a 1 ['''']))] [(''https://docs-a.test'', docs_a_home)] []"

definition deep_site :: "string env" where
  "deep_site =
    static_site [(''docs-a'', Inr (docs_a 1 ['''']))]
      [(''https://docs-a.test'', docs_a_home),
       (''https://docs-a.test/guide/intro'', anchor ''/guide/deep'')] []"



section \<open>Properties of URL normalisation\<close>

lemma set_rstrip_subset: "set (rstrip c s) \<subseteq> set s"
proof -
  have "set (dropWhile (\<lambda>x. x = c) (rev s)) \<subseteq> set (rev s)"
    by (rule set_dropWhileD [THEN subsetI])
  then show ?thesis by (simp add: rstrip_def)
qed

lemma rstrip_idem: "rstrip c (rstrip c s) = rstrip c s"
proof -
  have "dropWhile (\<lambda>x. x = c) (dropWhile (\<lambda>x. x = c) (rev s)) = dropWhile (\<lambda>x. x = c) (rev s)"
    by (rule dropWhile_idem)
  then show ?thesis by (simp add: rstrip_def)
qed

lemma rstrip_snoc: "rstrip c (s @ [c]) = rstrip c s"
  by (simp add: rstrip_def)

lemma split_first_absent: "c \<notin> set s \<Longrightarrow> split_first c s = s"
  by (auto simp: split_first_def takeWhile_eq_all_conv)

lemma split_first_no_sep: "c \<notin> set (split_first c s)"
  unfolding split_first_def by (induction s) auto

lemma set_split_first_subset: "set (split_first c s) \<subseteq> set s"
  unfolding split_first_def by (rule subsetI) (rule set_takeWhileD [THEN conjunct1])

lemma split_first_append_sep: "split_first c (u @ c # q) = split_first c u"
  unfolding split_first_def by (induction u) auto

lemma split_first_append:
  "split_first c (u @ v) = (if c \<in> set u then split_first c u else u @ split_first c v)"
  unfolding split_first_def by (induction u) auto

lemma clean_url_no_query: "CHR ''?'' \<notin> set (clean_url u)"
  using set_rstrip_subset set_split_first_subset split_first_no_sep
  unfolding clean_url_def by fast

lemma clean_url_no_fragment: "CHR ''#'' \<notin> set (clean_url u)"
  using set_rstrip_subset split_first_no_sep
  unfolding clean_url_def by fast

lemma clean_url_idem: "clean_url (clean_url u) = clean_url u"
proof -
  have "split_first (CHR ''?'') (clean_url u) = clean_url u"
    by (rule split_first_absent [OF clean_url_no_query])
  moreover have "split_first (CHR ''#'') (clean_url u) = clean_url u"
    by (rule split_first_absent [OF clean_url_no_fragment])
  moreover have "rstrip (CHR ''/'') (clean_url u) = clean_url u"
    by (simp add: clean_url_def rstrip_idem)
  ultimately show ?thesis
    by (simp add: clean_url_def [of "clean_url u"])
qed

lemma clean_url_drop_query: "clean_url (u @ CHR ''?'' # q) = clean_url u"
  by (simp add: clean_url_def split_first_append_sep)

lemma clean_url_drop_fragment: "clean_url (u @ CHR ''#'' # f) = clean_url u"
proof (cases "CHR ''?'' \<in> set u")
  case True
  then show ?thesis by (simp add: clean_url_def split_first_append)
next
  case False
  then have "split_first (CHR ''?'') (u @ CHR ''#'' # f) = u @ CHR ''#'' # split_first (CHR ''?'') f"
    by (induction u) (auto simp: split_first_def)
  moreover from False have "split_first (CHR ''?'') u = u"
    by (rule split_first_absent)
  ultimately show ?thesis
    by (simp add: clean_url_def split_first_append_sep)
qed

lemma clean_url_drop_slash: "clean_url (u @ [CHR ''/'']) = clean_url u"
proof -
  let ?q = "CHR ''?''" and ?h = "CHR ''#''"
  show ?thesis
  proof (cases "?q \<in> set u")
    case True
    then show ?thesis by (simp add: clean_url_def split_first_append)
  next
    case noq: False
    then have q: "split_first ?q (u @ [CHR ''/'']) = u @ [CHR ''/'']" "split_first ?q u = u"
      by (simp_all add: split_first_absent)
    show ?thesis
    proof (cases "?h \<in> set u")
      case True
      then show ?thesis by (simp add: clean_url_def q split_first_append)
    next
      case False
      then have "split_first ?h (u @ [CHR ''/'']) = u @ [CHR ''/'']" "split_first ?h u = u"
        by (simp_all add: split_first_absent)
      then show ?thesis by (simp add: clean_url_def q rstrip_snoc)
    qed
  qed
qed

text \<open>
  C8. Normalising twice is the same as normalising once, and appending a query string, a
  fragment or a trailing slash to any URL leaves the normal form unchanged, so URLs that
  differ only in these parts have one canonical form.
\<close>

theorem clean_url_canonical:
  "clean_url (clean_url u) = clean_url u
   \<and> clean_url (u @ CHR ''?'' # q) = clean_url u
   \<and> clean_url (u @ CHR ''#'' # f) = clean_url u
   \<and> clean_url (u @ [CHR ''/'']) = clean_url u"
  by (simp only: clean_url_idem clean_url_drop_query clean_url_drop_fragment clean_url_drop_slash)

section \<open>Properties of the link discovery loop\<close>

lemma take_batch_spec:
  "take_batch md tv vis b = (rest, vis', batch) \<Longrightarrow>
   \<exists>removed new. tv = removed @ rest \<and> batch = b @ new
     \<and> (length b < 10 \<and> tv \<noteq> [] \<longrightarrow> removed \<noteq> [])
     \<and> set new \<subseteq> set removed
     \<and> (\<forall>(u, d) \<in> set new. u \<notin> vis \<and> d \<le> md)
     \<and> distinct (map fst new)
     \<and> vis' = vis \<union> fst ` set new
     \<and> (\<forall>(u, d) \<in> set removed. u \<in> vis' \<or> md < d)"
proof (induction md tv vis b arbitrary: rest vis' batch rule: take_batch.induct)
  case (1 md vis b)
  then have "[] = [] @ rest \<and> batch = b @ [] \<and> vis' = vis" by simp
  then show ?case
    by (intro exI [of _ "[]"]) simp
next
  case (2 md url depth tv vis b)
  show ?case
  proof (cases "length b < 10")
    case False
    with "2.prems" have "(url, depth) # tv = [] @ rest \<and> batch = b @ [] \<and> vis' = vis" by auto
    with False show ?thesis
      by (intro exI [of _ "[]"]) simp
  next
    case short: True
    show ?thesis
    proof (cases "url \<notin> vis \<and> depth \<le> md")
      case True
      with short "2.prems"
      have "take_batch md tv (insert url vis) (b @ [(url, depth)]) = (rest, vis', batch)" by simp
      from "2.IH"(1) [OF short True this]
      obtain removed new where r: "tv = removed @ rest" "batch = (b @ [(url, depth)]) @ new"
        "set new \<subseteq> set removed" "\<forall>(u, d) \<in> set new. u \<notin> insert url vis \<and> d \<le> md"
        "distinct (map fst new)" "vis' = insert url vis \<union> fst ` set new"
        "\<forall>(u, d) \<in> set removed. u \<in> vis' \<or> md < d"
        by blast
      let ?removed = "(url, depth) # removed" and ?new = "(url, depth) # new"
      have a: "(url, depth) # tv = ?removed @ rest" using r(1) by simp
      have b: "batch = b @ ?new" using r(2) by simp
      have c: "set ?new \<subseteq> set ?removed" using r(3) by auto
      have d: "\<forall>(u, d) \<in> set ?new. u \<notin> vis \<and> d \<le> md" using r(4) True by auto
      have e: "distinct (map fst ?new)" using r(4,5) by force
      have f: "vis' = vis \<union> fst ` set ?new" using r(6) by auto
      have g: "\<forall>(u, d) \<in> set ?removed. u \<in> vis' \<or> md < d" using r(6,7) by auto
      show ?thesis
        apply (rule exI [of _ ?removed])
        apply (rule exI [of _ ?new])
        using a b c d e f g apply (intro conjI)
               apply simp_all
        done
    next
      case False
      with short "2.prems"
      have "take_batch md tv vis b = (rest, vis', batch)" by auto
      from "2.IH"(2) [OF short False this]
      obtain removed new where r: "tv = removed @ rest" "batch = b @ new"
        "set new \<subseteq> set removed" "\<forall>(u, d) \<in> set new. u \<notin> vis \<and> d \<le> md"
        "distinct (map fst new)" "vis' = vis \<union> fst ` set new"
        "\<forall>(u, d) \<in> set removed. u \<in> vis' \<or> md < d"
        by blast
      let ?removed = "(url, depth) # removed"
      have a: "(url, depth) # tv = ?removed @ rest" using r(1) by simp
      have c: "set new \<subseteq> set ?removed" using r(3) by auto
      have g: "\<forall>(u, d) \<in> set ?removed. u \<in> vis' \<or> md < d" using r(6,7) False by auto
      show ?thesis
        apply (rule exI [of _ ?removed])
        apply (rule exI [of _ new])
        using a c g r(2,4,5,6) apply (intro conjI)
               apply simp_all
        done
    qed
  qed
qed

lemma process_batch_spec:
  "process_batch fetch extr md vis batch st = Inr st' \<Longrightarrow>
   fst st' = fst st @ concat (map (\<lambda>(u, d). map (\<lambda>l. (l, d + 1))
                (filter (\<lambda>l. d < md \<and> l \<notin> vis) (page_links fetch extr u))) batch)
   \<and> snd st' = snd st \<union> (\<Union>(u, d) \<in> set batch. set (page_links fetch extr u))"
proof (induction fetch extr md vis batch st arbitrary: st' rule: process_batch.induct)
  case (1 fetch extr md vis st)
  then show ?case by simp
next
  case (2 fetch extr md vis url depth rest st)
  show ?case
  proof (cases "fetch url")
    case (Inl e)
    with "2.prems" have "process_batch fetch extr md vis rest st = Inr st'" by simp
    from "2.IH"(1) [OF Inl this] Inl show ?thesis by (simp add: page_links_def)
  next
    case (Inr html)
    with "2.prems" obtain found where xl: "extr html = Inr found"
      and run: "process_batch fetch extr md vis rest (fold (add_link md vis depth) found st) = Inr st'"
      by (auto split: sum.splits)
    have pl: "page_links fetch extr url = found" by (simp add: page_links_def Inr xl)
    from "2.IH"(2) [OF Inr xl run] show ?thesis
      by (simp add: fold_add_link pl Un_assoc)
  qed
qed

lemma crawl_step_spec:
  assumes "crawl_step fetch extr md st = Inr st'"
  shows "\<exists>removed rest batch. to_visit st = removed @ rest
     \<and> (to_visit st \<noteq> [] \<longrightarrow> removed \<noteq> [])
     \<and> set batch \<subseteq> set removed
     \<and> (\<forall>(u, d) \<in> set batch. u \<notin> visited st \<and> d \<le> md)
     \<and> distinct (map fst batch)
     \<and> visited st' = visited st \<union> fst ` set batch
     \<and> (\<forall>(u, d) \<in> set removed. u \<in> visited st' \<or> md < d)
     \<and> fetched st' = fetched st @ batch
     \<and> to_visit st' = rest @ concat (map (\<lambda>(u, d). map (\<lambda>l. (l, d + 1))
                (filter (\<lambda>l. d < md \<and> l \<notin> visited st') (page_links fetch extr u))) batch)
     \<and> all_links st' = all_links st \<union> (\<Union>(u, d) \<in> set batch. set (page_links fetch extr u))"
proof -
  obtain rest vis batch where tb: "take_batch md (to_visit st) (visited st) [] = (rest, vis, batch)"
    by (metis prod_cases3)
  from take_batch_spec [OF tb] obtain removed where
    r: "to_visit st = removed @ rest" "to_visit st \<noteq> [] \<longrightarrow> removed \<noteq> []"
       "set batch \<subseteq> set removed" "\<forall>(u, d) \<in> set batch. u \<notin> visited st \<and> d \<le> md"
       "distinct (map fst batch)" "vis = visited st \<union> fst ` set batch"
       "\<forall>(u, d) \<in> set removed. u \<in> vis \<or> md < d"
    by auto
  have "visited st' = vis \<and> fetched st' = fetched st @ batch
     \<and> to_visit st' = rest @ concat (map (\<lambda>(u, d). map (\<lambda>l. (l, d + 1))
                (filter (\<lambda>l. d < md \<and> l \<notin> vis) (page_links fetch extr u))) batch)
     \<and> all_links st' = all_links st \<union> (\<Union>(u, d) \<in> set batch. set (page_links fetch extr u))"
  proof (cases "batch = []")
    case True
    with assms tb show ?thesis by (auto simp: crawl_step_def)
  next
    case False
    with assms tb obtain queue found where
      pb: "process_batch fetch extr md vis batch (rest, all_links st) = Inr (queue, found)"
      and st': "st' = \<lparr>to_visit = queue, visited = vis, all_links = found,
                         fetched = fetched st @ batch\<rparr>"
      by (auto simp: crawl_step_def split: sum.splits)
    from process_batch_spec [OF pb] st' show ?thesis by simp
  qed
  then have s: "visited st' = vis" "fetched st' = fetched st @ batch"
    "to_visit st' = rest @ concat (map (\<lambda>(u, d). map (\<lambda>l. (l, d + 1))
                (filter (\<lambda>l. d < md \<and> l \<notin> vis) (page_links fetch extr u))) batch)"
    "all_links st' = all_links st \<union> (\<Union>(u, d) \<in> set batch. set (page_links fetch extr u))"
    by simp_all
  show ?thesis
    apply (rule exI [of _ removed])
    apply (rule exI [of _ rest])
    apply (rule exI [of _ batch])
    using r s apply (intro conjI)
             apply simp_all
    done
qed

lemma crawl_loop_final:
  "crawl_loop fetch extr md st = Inr st' \<Longrightarrow> st \<in> crawl_states fetch extr md init
   \<Longrightarrow> st' \<in> crawl_states fetch extr md init \<and> to_visit st' = []"
proof (induction fetch extr md st rule: crawl_loop.induct)
  case (1 fetch extr md st)
  show ?case
  proof (cases "to_visit st = []")
    case True
    with "1.prems" show ?thesis by (simp add: crawl_loop.simps [of fetch extr md st])
  next
    case False
    with "1.prems"(1) obtain st1 where s: "crawl_step fetch extr md st = Inr st1"
      and l: "crawl_loop fetch extr md st1 = Inr st'"
      by (cases "crawl_step fetch extr md st") (simp_all add: crawl_loop.simps [of fetch extr md st])
    from "1.prems"(2) False s have "st1 \<in> crawl_states fetch extr md init"
      by (rule crawl_states.step)
    from "1.IH" [OF False s l this] show ?thesis .
  qed
qed

lemma crawl_step_cases:
  assumes "crawl_step fetch extr md st = Inr st'"
  obtains removed rest batch where
    "to_visit st = removed @ rest" "to_visit st \<noteq> [] \<longrightarrow> removed \<noteq> []"
    "set batch \<subseteq> set removed" "\<forall>(u, d) \<in> set batch. u \<notin> visited st \<and> d \<le> md"
    "distinct (map fst batch)" "visited st' = visited st \<union> fst ` set batch"
    "\<forall>(u, d) \<in> set removed. u \<in> visited st' \<or> md < d"
    "fetched st' = fetched st @ batch"
    "to_visit st' = rest @ concat (map (\<lambda>(u, d). map (\<lambda>l. (l, d + 1))
                (filter (\<lambda>l. d < md \<and> l \<notin> visited st') (page_links fetch extr u))) batch)"
    "all_links st' = all_links st \<union> (\<Union>(u, d) \<in> set batch. set (page_links fetch extr u))"
  using crawl_step_spec [OF assms] by (elim exE conjE) (rule that)

lemma visited_is_fetched:
  assumes "st \<in> crawl_states fetch extr md (initial_state urls)"
  shows "visited st = fst ` set (fetched st) \<and> distinct (map fst (fetched st))"
  using assms
proof (induction rule: crawl_states.induct)
  case start
  show ?case by (simp add: initial_state_def)
next
  case (step st st')
  from step.hyps(3) obtain removed rest batch where
    b: "\<forall>(u, d) \<in> set batch. u \<notin> visited st \<and> d \<le> md" "distinct (map fst batch)"
       "visited st' = visited st \<union> fst ` set batch" "fetched st' = fetched st @ batch"
    by (rule crawl_step_cases) (rule that; assumption)
  from b(1) step.IH have "fst ` set (fetched st) \<inter> fst ` set batch = {}" by fastforce
  with step.IH b(2,3,4) show ?case by (simp add: image_Un)
qed

lemma all_links_finite:
  assumes "st \<in> crawl_states fetch extr md (initial_state urls)"
  shows "finite (all_links st)"
  using assms
proof (induction rule: crawl_states.induct)
  case start
  show ?case by (simp add: initial_state_def)
next
  case (step st st')
  from step.hyps(3) obtain removed rest batch where
    "to_visit st = removed @ rest" "fetched st' = fetched st @ batch"
    "all_links st' = all_links st \<union> (\<Union>(u, d) \<in> set batch. set (page_links fetch extr u))"
    by (rule crawl_step_cases) (rule that; assumption)
  with step.IH show ?case by auto
qed

lemma depth_bounds:
  assumes "st \<in> crawl_states fetch extr md (initial_state urls)"
  shows "(\<forall>(u, d) \<in> set (to_visit st). 0 \<le> d \<and> (0 \<le> md \<longrightarrow> d \<le> md))
       \<and> (\<forall>(u, d) \<in> set (fetched st). 0 \<le> d \<and> d \<le> md)"
  using assms
proof (induction rule: crawl_states.induct)
  case start
  show ?case by (auto simp: initial_state_def)
next
  case (step st st')
  from step.hyps(3) obtain removed rest batch where
    s: "to_visit st = removed @ rest" "set batch \<subseteq> set removed"
       "\<forall>(u, d) \<in> set batch. u \<notin> visited st \<and> d \<le> md"
       "fetched st' = fetched st @ batch"
       "to_visit st' = rest @ concat (map (\<lambda>(u, d). map (\<lambda>l. (l, d + 1))
                (filter (\<lambda>l. d < md \<and> l \<notin> visited st') (page_links fetch extr u))) batch)"
    by (rule crawl_step_cases) (rule that; assumption)
  have batch: "\<forall>(u, d) \<in> set batch. 0 \<le> d \<and> d \<le> md"
    using s(1,2,3) step.IH by fastforce
  have "\<forall>(u, d) \<in> set (to_visit st'). 0 \<le> d \<and> (0 \<le> md \<longrightarrow> d \<le> md)"
  proof (clarify)
    fix u d assume "(u, d) \<in> set (to_visit st')"
    with s(5) consider "(u, d) \<in> set rest"
      | v e where "(v, e) \<in> set batch" "e < md" "d = e + 1" by auto
    then show "0 \<le> d \<and> (0 \<le> md \<longrightarrow> d \<le> md)"
    proof cases
      case 1
      with s(1) step.IH show ?thesis by auto
    next
      case 2
      with batch show ?thesis by auto
    qed
  qed
  moreover have "\<forall>(u, d) \<in> set (fetched st'). 0 \<le> d \<and> d \<le> md"
    using s(4) batch step.IH by auto
  ultimately show ?case by blast
qed

lemma in_children:
  "(v, e) \<in> set batch \<Longrightarrow> e < md \<Longrightarrow> l \<in> set (page_links fetch extr v) \<Longrightarrow> l \<notin> vis \<Longrightarrow>
   (l, e + 1) \<in> set (concat (map (\<lambda>(u, d). map (\<lambda>l. (l, d + 1))
                (filter (\<lambda>l. d < md \<and> l \<notin> vis) (page_links fetch extr u))) batch))"
  by (induction batch) auto

lemma hops_invariant:
  assumes "st \<in> crawl_states fetch extr md (initial_state urls)"
  shows "(\<forall>(u, d) \<in> set (to_visit st) \<union> set (fetched st).
            \<exists>s \<in> set urls. (s, u) \<in> links_to fetch extr ^^ nat d)
       \<and> (\<forall>l \<in> all_links st. \<exists>s \<in> set urls. \<exists>n. 0 < n \<and> int n \<le> md + 1
              \<and> (s, l) \<in> links_to fetch extr ^^ n)"
  using assms
proof (induction rule: crawl_states.induct)
  case start
  show ?case by (auto simp: initial_state_def)
next
  case (step st st')
  let ?R = "links_to fetch extr"
  from step.hyps(3) obtain removed rest batch where
    s: "to_visit st = removed @ rest" "set batch \<subseteq> set removed"
       "\<forall>(u, d) \<in> set batch. u \<notin> visited st \<and> d \<le> md"
       "fetched st' = fetched st @ batch"
       "to_visit st' = rest @ concat (map (\<lambda>(u, d). map (\<lambda>l. (l, d + 1))
                (filter (\<lambda>l. d < md \<and> l \<notin> visited st') (page_links fetch extr u))) batch)"
       "all_links st' = all_links st \<union> (\<Union>(u, d) \<in> set batch. set (page_links fetch extr u))"
    by (rule crawl_step_cases) (rule that; assumption)
  from depth_bounds [OF step.hyps(1)] have nonneg: "\<forall>(u, d) \<in> set (to_visit st). 0 \<le> d"
    by blast
  have batch: "\<exists>s \<in> set urls. (s, v) \<in> ?R ^^ nat e" "0 \<le> e" "e \<le> md"
    if "(v, e) \<in> set batch" for v e
  proof -
    from that s(1,2) have "(v, e) \<in> set (to_visit st)" by auto
    with step.IH nonneg show "\<exists>s \<in> set urls. (s, v) \<in> ?R ^^ nat e" "0 \<le> e" by blast+
    from that s(3) show "e \<le> md" by blast
  qed
  have child: "\<exists>s \<in> set urls. (s, l) \<in> ?R ^^ nat (e + 1)"
    if "(v, e) \<in> set batch" "l \<in> set (page_links fetch extr v)" for v e l
  proof -
    from batch [OF that(1)] obtain s where "s \<in> set urls" "(s, v) \<in> ?R ^^ nat e" "0 \<le> e"
      by blast
    moreover from that(2) have "(v, l) \<in> ?R" by (simp add: links_to_def)
    ultimately have "(s, l) \<in> ?R ^^ Suc (nat e)" by auto
    moreover from \<open>0 \<le> e\<close> have "nat (e + 1) = Suc (nat e)" by simp
    ultimately show ?thesis using \<open>s \<in> set urls\<close> by auto
  qed
  have "\<exists>s \<in> set urls. (s, u) \<in> ?R ^^ nat d" if "(u, d) \<in> set (to_visit st') \<union> set (fetched st')" for u d
  proof -
    from that s(4,5) consider "(u, d) \<in> set rest" | "(u, d) \<in> set (fetched st)" | "(u, d) \<in> set batch"
      | v e where "(v, e) \<in> set batch" "u \<in> set (page_links fetch extr v)" "d = e + 1"
      by auto
    then show ?thesis
    proof cases
      case 1
      then have "(u, d) \<in> set (to_visit st) \<union> set (fetched st)" using s(1) by simp
      with step.IH show ?thesis by blast
    next
      case 2
      then have "(u, d) \<in> set (to_visit st) \<union> set (fetched st)" by simp
      with step.IH show ?thesis by blast
    next
      case 3
      then show ?thesis by (rule batch(1))
    next
      case 4
      with child show ?thesis by blast
    qed
  qed
  moreover have "\<exists>s \<in> set urls. \<exists>n. 0 < n \<and> int n \<le> md + 1 \<and> (s, l) \<in> ?R ^^ n"
    if "l \<in> all_links st'" for l
  proof -
    from that s(6) consider "l \<in> all_links st"
      | v e where "(v, e) \<in> set batch" "l \<in> set (page_links fetch extr v)" by auto
    then show ?thesis
    proof cases
      case 1
      with step.IH show ?thesis by blast
    next
      case 2
      from child [OF 2] obtain s where "s \<in> set urls" "(s, l) \<in> ?R ^^ nat (e + 1)" by blast
      moreover from batch(2,3) [OF 2(1)] have "0 < nat (e + 1)" "int (nat (e + 1)) \<le> md + 1"
        by simp_all
      ultimately show ?thesis by blast
    qed
  qed
  ultimately show ?case by blast
qed

section \<open>Content extraction in fetch mode\<close>

text \<open>
  C10. Every extractor class other than the Terraform one, given markup instead of a live
  page, returns the markup itself as the only content string, whatever selector and
  method are configured.
\<close>

theorem fetch_mode_content_is_markup:
  "cls \<noteq> TerraformExtractor \<Longrightarrow> extract_content env cls (Html html) cc = Inr [html]"
  by (cases cls) (simp_all add: extract_content_def)

theorem fetch_mode_content_is_markup_witness:
  "ModalExtractor \<noteq> TerraformExtractor
   \<and> extract_content (static_site [] [] []) ModalExtractor (Html ''<p>Hello</p>'')
        \<lparr>content_mode = None, content_waitFor = None, selector = ''#main'',
         extract_method = ClickCopy\<rparr> = Inr [''<p>Hello</p>'']"
  using fetch_mode_content_is_markup [of ModalExtractor "static_site [] [] []" "''<p>Hello</p>''"
      "\<lparr>content_mode = None, content_waitFor = None, selector = ''#main'',
         extract_method = ClickCopy\<rparr>"]
  by simp

section \<open>Mode dispatch of content extraction\<close>

lemma scrape_content_traced_configured:
  assumes "load_site_config env sid = Inr config"
    and "get_extractor env (extractor config) = Inr cls"
    and "content config = Some cc"
  shows "scrape_content_traced env sid path =
    (case page_content env cls config cc path of
       (Inl e, calls) \<Rightarrow> (failure ContentOp sid e, calls)
     | (Inr found, calls) \<Rightarrow>
         (\<lparr>site = sid, operation = ContentOp, success = True, data = found, error = None\<rparr>,
          calls))"
  using assms by (simp add: scrape_content_traced_def)

text \<open>
  C6. For a configured site with a content configuration, the result of the call is the
  outcome of the executor of the effective mode, which is the mode of the content
  configuration when set and the mode of the site otherwise: the markup of one HTTP
  request put through the extractor when it is fetch, the outcome of one browser session
  when it is not. A failure of that executor is the failure of the call, and the trace
  holds one call, to that executor. In particular a site in fetch mode whose content
  configuration sets browser mode is served by the browser alone.
\<close>

theorem content_mode_dispatch:
  assumes "load_site_config env sid = Inr config"
    and "get_extractor env (extractor config) = Inr cls"
    and "content config = Some cc"
  shows "scrape_content env sid path =
           (case (if (case content_mode cc of None \<Rightarrow> site_mode config | Some m \<Rightarrow> m) = Fetch
                  then (case fetch_html env (baseUrl config @ path) of
                          Inl e \<Rightarrow> Inl e
                        | Inr html \<Rightarrow> extract_content env cls (Html html) cc)
                  else with_browser_page env (baseUrl config @ path) (content_waitFor cc)
                         (content_permissions cc)
                         (\<lambda>page. extract_content env cls (Page page) cc)) of
              Inl e \<Rightarrow> failure ContentOp sid e
            | Inr found \<Rightarrow> \<lparr>site = sid, operation = ContentOp, success = True,
                             data = found, error = None\<rparr>)
       \<and> ((case content_mode cc of None \<Rightarrow> site_mode config | Some m \<Rightarrow> m) = Fetch
            \<and> fetch_html env (baseUrl config @ path) = Inl e
          \<longrightarrow> scrape_content env sid path = failure ContentOp sid e)
       \<and> ((case content_mode cc of None \<Rightarrow> site_mode config | Some m \<Rightarrow> m) = Browser
            \<and> browser_page env (baseUrl config @ path) (content_waitFor cc)
                 (content_permissions cc) = Inl e
          \<longrightarrow> scrape_content env sid path = failure ContentOp sid e)
       \<and> snd (scrape_content_traced env sid path) =
           (if (case content_mode cc of None \<Rightarrow> site_mode config | Some m \<Rightarrow> m) = Fetch
            then [FetchCall (baseUrl config @ path)]
            else [RenderCall (baseUrl config @ path) (content_waitFor cc) (content_permissions cc)])
       \<and> (site_mode config = Fetch \<and> content_mode cc = Some Browser \<longrightarrow>
            snd (scrape_content_traced env sid path) =
              [RenderCall (baseUrl config @ path) (content_waitFor cc) (content_permissions cc)]
            \<and> scrape_content env sid path =
              (case with_browser_page env (baseUrl config @ path) (content_waitFor cc)
                      (content_permissions cc) (\<lambda>page. extract_content env cls (Page page) cc) of
                 Inl e \<Rightarrow> failure ContentOp sid e
               | Inr found \<Rightarrow> \<lparr>site = sid, operation = ContentOp, success = True,
                                data = found, error = None\<rparr>))"
proof -
  let ?eff = "case content_mode cc of None \<Rightarrow> site_mode config | Some m \<Rightarrow> m"
  let ?url = "baseUrl config @ path"
  let ?fetched = "case fetch_html env ?url of
                    Inl e \<Rightarrow> Inl e
                  | Inr html \<Rightarrow> extract_content env cls (Html html) cc"
  let ?rendered = "with_browser_page env ?url (content_waitFor cc) (content_permissions cc)
                     (\<lambda>page. extract_content env cls (Page page) cc)"
  let ?envelope = "\<lambda>outcome. case outcome of
                     Inl e \<Rightarrow> failure ContentOp sid e
                   | Inr found \<Rightarrow> \<lparr>site = sid, operation = ContentOp, success = True,
                                    data = found, error = None\<rparr>"
  have result: "scrape_content env sid path = ?envelope (if ?eff = Fetch then ?fetched else ?rendered)"
    by (simp add: scrape_content_def scrape_content_traced_configured [OF assms] page_content_def
        effective_mode_def split: sum.splits)
  have fetch_fails: "scrape_content env sid path = failure ContentOp sid e"
    if "?eff = Fetch" "fetch_html env ?url = Inl e"
    using that by (simp add: result)
  have browser_fails: "scrape_content env sid path = failure ContentOp sid e"
    if "?eff = Browser"
      "browser_page env ?url (content_waitFor cc) (content_permissions cc) = Inl e"
    using that by (simp add: result with_browser_page_def)
  have trace: "snd (scrape_content_traced env sid path) =
           (if ?eff = Fetch then [FetchCall ?url]
            else [RenderCall ?url (content_waitFor cc) (content_permissions cc)])"
    by (simp add: scrape_content_traced_configured [OF assms] page_content_def effective_mode_def
        split: sum.splits)
  have override: "snd (scrape_content_traced env sid path) =
              [RenderCall ?url (content_waitFor cc) (content_permissions cc)]
            \<and> scrape_content env sid path = ?envelope ?rendered"
    if "content_mode cc = Some Browser"
    using that by (simp add: result trace)
  show ?thesis
    apply (intro conjI impI)
         apply (rule result)
        apply (erule conjE, erule (1) fetch_fails)
       apply (erule conjE, erule (1) browser_fails)
      apply (rule trace)
     apply (erule conjE, drule override, erule conjunct1)
    apply (erule conjE, drule override, erule conjunct2)
    done
qed

theorem content_mode_dispatch_witness:
  "load_site_config (static_site [(''docs-a'', Inr docs_a_rendered), (''docs-b'', Inr (docs_a 1 ['''']))]
       [(''https://docs-a.test'', anchor ''/guide/intro'')]
       [(''https://docs-a.test/guide/intro'', [''<p>Hello</p>''])]) ''docs-a'' = Inr docs_a_rendered
   \<and> site_mode docs_a_rendered = Fetch
   \<and> scrape_content_traced (static_site [(''docs-a'', Inr docs_a_rendered), (''docs-b'', Inr (docs_a 1 ['''']))]
       [(''https://docs-a.test'', anchor ''/guide/intro'')]
       [(''https://docs-a.test/guide/intro'', [''<p>Hello</p>''])]) ''docs-a'' ''/guide/intro''
     = (\<lparr>site = ''docs-a'', operation = ContentOp, success = True, data = [''<p>Hello</p>''],
         error = None\<rparr>,
        [RenderCall ''https://docs-a.test/guide/intro'' None []])
   \<and> scrape_content (static_site [(''docs-a'', Inr docs_a_rendered), (''docs-b'', Inr (docs_a 1 ['''']))]
       [(''https://docs-a.test'', anchor ''/guide/intro'')]
       [(''https://docs-a.test/guide/intro'', [''<p>Hello</p>''])]) ''docs-a'' ''/missing''
     = failure ContentOp ''docs-a'' ''net::ERR_NAME_NOT_RESOLVED''
   \<and> scrape_content_traced (static_site [(''docs-a'', Inr docs_a_rendered), (''docs-b'', Inr (docs_a 1 ['''']))]
       [(''https://docs-a.test'', anchor ''/guide/intro'')]
       [(''https://docs-a.test/guide/intro'', [''<p>Hello</p>''])]) ''docs-b'' []
     = (\<lparr>site = ''docs-b'', operation = ContentOp, success = True,
         data = [anchor ''/guide/intro''], error = None\<rparr>,
        [FetchCall ''https://docs-a.test''])
   \<and> scrape_content (static_site [(''docs-a'', Inr docs_a_rendered), (''docs-b'', Inr (docs_a 1 ['''']))]
       [(''https://docs-a.test'', anchor ''/guide/intro'')]
       [(''https://docs-a.test/guide/intro'', [''<p>Hello</p>''])]) ''docs-b'' ''/guide/intro''
     = failure ContentOp ''docs-b'' ''Client error 404 Not Found''"
proof -
  let ?env = "static_site [(''docs-a'', Inr docs_a_rendered), (''docs-b'', Inr (docs_a 1 ['''']))]
       [(''https://docs-a.test'', anchor ''/guide/intro'')]
       [(''https://docs-a.test/guide/intro'', [''<p>Hello</p>''])]"
  let ?cc = "\<lparr>content_mode = Some Browser, content_waitFor = None,
              selector = ''article'', extract_method = InnerHtml\<rparr>"
  let ?plain = "\<lparr>content_mode = None, content_waitFor = None, selector = ''body'',
                  extract_method = InnerHtml\<rparr>"
  have a1: "load_site_config ?env ''docs-a'' = Inr docs_a_rendered"
    by (simp add: load_site_config_def static_site_def)
  have a2: "get_extractor ?env (extractor docs_a_rendered) = Inr DefaultExtractor"
    by (simp add: get_extractor_def EXTRACTORS_def docs_a_rendered_def docs_a_def)
  have a3: "content docs_a_rendered = Some ?cc"
    by (simp add: docs_a_rendered_def)
  have a4: "site_mode docs_a_rendered = Fetch" "baseUrl docs_a_rendered = ''https://docs-a.test''"
    by (simp_all add: docs_a_rendered_def docs_a_def)
  have b1: "load_site_config ?env ''docs-b'' = Inr (docs_a 1 [''''])"
    by (simp add: load_site_config_def static_site_def)
  have b2: "get_extractor ?env (extractor (docs_a 1 [''''])) = Inr DefaultExtractor"
    by (simp add: get_extractor_def EXTRACTORS_def docs_a_def)
  have b3: "content (docs_a 1 ['''']) = Some ?plain"
    by (simp add: docs_a_def)
  have b4: "site_mode (docs_a 1 ['''']) = Fetch" "baseUrl (docs_a 1 ['''']) = ''https://docs-a.test''"
    by (simp_all add: docs_a_def)
  have rendered: "with_browser_page ?env ''https://docs-a.test/guide/intro'' None []
            (\<lambda>page. extract_content ?env DefaultExtractor (Page page) ?cc)
           = Inr [''<p>Hello</p>'']"
    by (simp add: with_browser_page_def static_site_def extract_content_def inner_html_def)
  have unreachable: "browser_page ?env ''https://docs-a.test/missing'' None []
           = Inl ''net::ERR_NAME_NOT_RESOLVED''"
    by (simp add: static_site_def)
  have served: "fetch_html ?env ''https://docs-a.test'' = Inr (anchor ''/guide/intro'')"
    "fetch_html ?env ''https://docs-a.test/guide/intro'' = Inl ''Client error 404 Not Found''"
    by (simp_all add: static_site_def)
  note render_hit = content_mode_dispatch [OF a1 a2 a3, of "''/guide/intro''"]
  note render_miss = content_mode_dispatch [OF a1 a2 a3, of "''/missing''" "''net::ERR_NAME_NOT_RESOLVED''"]
  note fetch_hit = content_mode_dispatch [OF b1 b2 b3, of "[]"]
  note fetch_miss = content_mode_dispatch [OF b1 b2 b3, of "''/guide/intro''" "''Client error 404 Not Found''"]
  have r1: "scrape_content_traced ?env ''docs-a'' ''/guide/intro''
     = (\<lparr>site = ''docs-a'', operation = ContentOp, success = True, data = [''<p>Hello</p>''],
         error = None\<rparr>,
        [RenderCall ''https://docs-a.test/guide/intro'' None []])"
    using render_hit a4 rendered
    by (simp add: scrape_content_def prod_eq_iff content_permissions_def)
  have r2: "scrape_content ?env ''docs-a'' ''/missing''
     = failure ContentOp ''docs-a'' ''net::ERR_NAME_NOT_RESOLVED''"
    using render_miss [THEN conjunct2, THEN conjunct2, THEN conjunct1] a4 unreachable
    by (simp add: content_permissions_def)
  have r3: "scrape_content_traced ?env ''docs-b'' []
     = (\<lparr>site = ''docs-b'', operation = ContentOp, success = True,
         data = [anchor ''/guide/intro''], error = None\<rparr>,
        [FetchCall ''https://docs-a.test''])"
    using fetch_hit b4 served(1)
    by (simp add: scrape_content_def prod_eq_iff extract_content_def)
  have r4: "scrape_content ?env ''docs-b'' ''/guide/intro''
     = failure ContentOp ''docs-b'' ''Client error 404 Not Found''"
    using fetch_miss [THEN conjunct2, THEN conjunct1] b4 served(2) by simp
  from a1 a4(1) r1 r2 r3 r4 show ?thesis by simp
qed

section \<open>The result envelope\<close>

lemma crawl_final:
  assumes "crawl env cls config lc = Inr st"
  shows "st \<in> crawl_states (fetch_html env)
            (\<lambda>html. extract_links env cls (Html html) (baseUrl config) lc)
            (maxDepth lc) (initial_state (start_urls config lc))
         \<and> to_visit st = []"
  using assms unfolding crawl_def
  by (rule crawl_loop_final) (rule crawl_states.start)

lemma discover_links_finite:
  assumes "discover_links env cls config lc = Inr found"
  shows "finite found"
proof (cases "site_mode config = Fetch")
  case True
  with assms obtain st where st: "crawl env cls config lc = Inr st" "found = all_links st"
    by (auto simp: discover_links_def split: sum.splits)
  from crawl_final [OF st(1)] all_links_finite st(2) show ?thesis by blast
next
  case False
  with assms show ?thesis
    by (auto simp: discover_links_def split: sum.splits)
qed

lemma scrape_links_cases:
  obtains (failed) msg where "scrape_links env sid = failure LinksOp sid msg"
  | (found) config cls lc found where "load_site_config env sid = Inr config"
      "get_extractor env (extractor config) = Inr cls" "links config = Some lc"
      "discover_links env cls config lc = Inr found"
      "scrape_links env sid = \<lparr>site = sid, operation = LinksOp, success = True,
                         data = sorted_list_of_set found, error = None\<rparr>"
proof (cases "load_site_config env sid")
  case (Inl e)
  then have "scrape_links env sid = failure LinksOp sid e" by (simp add: scrape_links_def)
  then show ?thesis by (rule failed)
next
  case config: (Inr config)
  show ?thesis
  proof (cases "get_extractor env (extractor config)")
    case (Inl e)
    with config have "scrape_links env sid = failure LinksOp sid e" by (simp add: scrape_links_def)
    then show ?thesis by (rule failed)
  next
    case cls: (Inr cls)
    show ?thesis
    proof (cases "links config")
      case None
      with config cls have "scrape_links env sid = failure LinksOp sid ''Site has no links configuration''"
        by (simp add: scrape_links_def)
      then show ?thesis by (rule failed)
    next
      case lc: (Some lc)
      show ?thesis
      proof (cases "discover_links env cls config lc")
        case (Inl e)
        with config cls lc have "scrape_links env sid = failure LinksOp sid e"
          by (simp add: scrape_links_def)
        then show ?thesis by (rule failed)
      next
        case (Inr found)
        with config cls lc have "scrape_links env sid = \<lparr>site = sid, operation = LinksOp, success = True,
                         data = sorted_list_of_set found, error = None\<rparr>"
          by (simp add: scrape_links_def)
        with config cls lc Inr show ?thesis by (rule found)
      qed
    qed
  qed
qed




section \<open>Order and duplicates of the discovered links\<close>

lemma collect_links_env:
  assumes "urlparse env' = urlparse env" "urljoin env' = urljoin env"
  shows "collect_links env' base pat hrefs acc = collect_links env base pat hrefs acc"
proof (induction hrefs arbitrary: acc)
  case Nil
  show ?case by simp
next
  case (Cons href hrefs)
  have "resolve_link env' base href = resolve_link env base href"
    by (simp add: resolve_link_def assms split: sum.splits)
  moreover have "keep_link env' base pat link = keep_link env base pat link" for link
    by (simp add: keep_link_def assms split: sum.splits)
  ultimately show ?case using Cons.IH
    by (simp split: sum.splits)
qed

lemma extract_links_html_env:
  assumes "urlparse env' = urlparse env" "urljoin env' = urljoin env"
  shows "extract_links env' cls (Html html) base lc = extract_links env cls (Html html) base lc"
  by (cases cls)
    (simp_all add: extract_links_def extract_links_from_html_def collect_links_env [OF assms])

lemma scrape_links_fetch_env:
  assumes "load_site_config env sid = Inr config" "site_mode config = Fetch"
    and "sites_json env' = sites_json env" "str_list env' = str_list env"
    and "urlparse env' = urlparse env" "urljoin env' = urljoin env"
    and "fetch_html env' = fetch_html env"
  shows "scrape_links env' sid = scrape_links env sid"
proof -
  have "load_site_config env' sid = load_site_config env sid"
    by (simp add: load_site_config_def assms split: sum.splits option.splits)
  moreover have "get_extractor env' nm = get_extractor env nm" for nm
    by (simp add: get_extractor_def assms split: option.splits)
  moreover have "discover_links env' cls config lc = discover_links env cls config lc" for cls lc
    by (simp add: discover_links_def crawl_def assms extract_links_html_env [of env' env])
  ultimately show ?thesis
    using assms(1) by (simp add: scrape_links_def split: sum.splits option.splits)
qed

text \<open>
  C7. The data of a successful link discovery is in ascending order, has no duplicates
  and holds exactly the links the discovery found. In fetch mode the whole result is
  determined by the configuration file, the HTTP responses and the URL library: two
  environments that agree on these give the same result.
\<close>

theorem links_sorted_without_duplicates:
  "(success (scrape_links env sid) \<longrightarrow>
      sorted (data (scrape_links env sid)) \<and> distinct (data (scrape_links env sid))
      \<and> (\<exists>config cls lc found. load_site_config env sid = Inr config
            \<and> get_extractor env (extractor config) = Inr cls \<and> links config = Some lc
            \<and> discover_links env cls config lc = Inr found
            \<and> set (data (scrape_links env sid)) = found))
   \<and> (load_site_config env sid = Inr config \<and> site_mode config = Fetch
        \<and> sites_json env' = sites_json env \<and> str_list env' = str_list env
        \<and> urlparse env' = urlparse env \<and> urljoin env' = urljoin env
        \<and> fetch_html env' = fetch_html env
      \<longrightarrow> scrape_links env' sid = scrape_links env sid)"
proof -
  have "sorted (data (scrape_links env sid)) \<and> distinct (data (scrape_links env sid))
      \<and> (\<exists>config cls lc found. load_site_config env sid = Inr config
            \<and> get_extractor env (extractor config) = Inr cls \<and> links config = Some lc
            \<and> discover_links env cls config lc = Inr found
            \<and> set (data (scrape_links env sid)) = found)"
    if "success (scrape_links env sid)"
  proof (cases rule: scrape_links_cases [of env sid])
    case (failed msg)
    with that show ?thesis by (simp add: failure_def)
  next
    case (found config cls lc found)
    from discover_links_finite [OF found(4)] have "set (sorted_list_of_set found) = found"
      by simp
    with found show ?thesis by simp
  qed
  then show ?thesis using scrape_links_fetch_env by blast
qed

theorem links_sorted_without_duplicates_witness:
  "success (scrape_links two_seeds ''docs-a'')
   \<and> data (scrape_links two_seeds ''docs-a'')
       = [''https://docs-a.test/guide/a'', ''https://docs-a.test/guide/b'',
          ''https://docs-a.test/guide/c'']
   \<and> sorted (data (scrape_links two_seeds ''docs-a''))
   \<and> distinct (data (scrape_links two_seeds ''docs-a''))
   \<and> load_site_config two_seeds ''docs-a'' = Inr (docs_a 0 [''/guide/b'', ''/guide/a''])
   \<and> scrape_links (two_seeds\<lparr>eval_hrefs := \<lambda>page. Inl ''closed''\<rparr>) ''docs-a''
       = scrape_links two_seeds ''docs-a''"
proof -
  have run: "success (scrape_links two_seeds ''docs-a'')"
    "data (scrape_links two_seeds ''docs-a'')
       = [''https://docs-a.test/guide/a'', ''https://docs-a.test/guide/b'',
          ''https://docs-a.test/guide/c'']"
    by code_simp+
  have cfg: "load_site_config two_seeds ''docs-a'' = Inr (docs_a 0 [''/guide/b'', ''/guide/a''])"
    "site_mode (docs_a 0 [''/guide/b'', ''/guide/a'']) = Fetch"
    by (simp_all add: load_site_config_def two_seeds_def static_site_def docs_a_def)
  from links_sorted_without_duplicates
    [of two_seeds "''docs-a''" "docs_a 0 [''/guide/b'', ''/guide/a'']"
        "two_seeds\<lparr>eval_hrefs := \<lambda>page. Inl ''closed''\<rparr>"] run(1) cfg
  have "sorted (data (scrape_links two_seeds ''docs-a''))"
    "distinct (data (scrape_links two_seeds ''docs-a''))"
    "scrape_links (two_seeds\<lparr>eval_hrefs := \<lambda>page. Inl ''closed''\<rparr>) ''docs-a''
       = scrape_links two_seeds ''docs-a''"
    by simp_all
  with run cfg(1) show ?thesis by simp
qed

section \<open>The render-only extractor in fetch mode\<close>

lemma process_batch_raising:
  assumes "\<And>html. extr html = Inl e"
  shows "process_batch fetch extr md vis batch st =
           (if \<exists>(u, d) \<in> set batch. \<exists>html. fetch u = Inr html then Inl e else Inr st)"
proof (induction batch)
  case Nil
  show ?case by simp
next
  case (Cons entry batch)
  obtain url depth where entry: "entry = (url, depth)" by (cases entry)
  show ?case
  proof (cases "fetch url")
    case (Inl x)
    with Cons.IH entry show ?thesis by simp
  next
    case (Inr html)
    with entry assms show ?thesis by auto
  qed
qed

lemma crawl_loop_raising:
  assumes "\<And>html. extr html = Inl e"
    and "(u, d) \<in> set (to_visit st)" "u \<notin> visited st" "d \<le> md" "fetch u = Inr html"
  shows "crawl_loop fetch extr md st = Inl e"
  using assms
proof (induction fetch extr md st rule: crawl_loop.induct)
  case (1 fetch extr md st)
  from "1.prems"(2) have nonempty: "to_visit st \<noteq> []" by auto
  obtain rest vis batch where tb: "take_batch md (to_visit st) (visited st) [] = (rest, vis, batch)"
    by (metis prod_cases3)
  from take_batch_spec [OF tb] obtain removed where
    r: "to_visit st = removed @ rest" "vis = visited st \<union> fst ` set batch"
       "\<forall>(u, d) \<in> set removed. u \<in> vis \<or> md < d"
    by auto
  have extr: "\<And>html. extr html = Inl e" by (rule "1.prems"(1))
  show ?case
  proof (cases "\<exists>(v, k) \<in> set batch. \<exists>html. fetch v = Inr html")
    case True
    then have "batch \<noteq> []" by auto
    with True tb have "crawl_step fetch extr md st = Inl e"
      by (simp add: crawl_step_def process_batch_raising [of extr e, OF extr])
    with nonempty show ?thesis by (simp add: crawl_loop.simps [of fetch extr md st])
  next
    case False
    then have pb: "process_batch fetch extr md vis batch (rest, all_links st) = Inr (rest, all_links st)"
      by (simp add: process_batch_raising [of extr e, OF extr])
    define st' where "st' = (if batch = [] then st\<lparr>to_visit := rest, visited := vis\<rparr>
        else \<lparr>to_visit = rest, visited = vis, all_links = all_links st,
              fetched = fetched st @ batch\<rparr>)"
    from tb pb have step: "crawl_step fetch extr md st = Inr st'"
      by (simp add: crawl_step_def st'_def)
    have st': "to_visit st' = rest" "visited st' = vis" by (simp_all add: st'_def)
    from False "1.prems"(5) have notin: "u \<notin> fst ` set batch" by force
    with "1.prems"(3) r(2) have "u \<notin> vis" by simp
    moreover from this r(3) "1.prems"(4) have "(u, d) \<notin> set removed" by fastforce
    with "1.prems"(2) r(1) have "(u, d) \<in> set rest" by simp
    ultimately have "crawl_loop fetch extr md st' = Inl e"
      using "1.IH" [OF nonempty step extr] "1.prems"(4,5) st' by simp
    with nonempty step show ?thesis by (simp add: crawl_loop.simps [of fetch extr md st])
  qed
qed

text \<open>
  C9. Both operations of the Terraform extractor fail on markup with an explicit message.
  That failure is the result of the public operation: of the content extraction whenever
  the page was fetched, and of the link discovery whenever some start URL was fetched.
\<close>

theorem terraform_requires_browser:
  "extract_links env TerraformExtractor (Html html) base lc
     = Inl ''TerraformExtractor requires browser mode for link extraction''
   \<and> extract_content env TerraformExtractor (Html html) cc
     = Inl ''TerraformExtractor requires browser mode for content extraction''
   \<and> (load_site_config env sid = Inr config \<and> extractor config = ''terraform''
        \<and> content config = Some cc
        \<and> (case content_mode cc of None \<Rightarrow> site_mode config | Some m \<Rightarrow> m) = Fetch
        \<and> fetch_html env (baseUrl config @ path) = Inr html
      \<longrightarrow> scrape_content env sid path
          = failure ContentOp sid ''TerraformExtractor requires browser mode for content extraction'')
   \<and> (load_site_config env sid = Inr config \<and> extractor config = ''terraform''
        \<and> links config = Some lc \<and> site_mode config = Fetch \<and> 0 \<le> maxDepth lc
        \<and> url \<in> set (start_urls config lc) \<and> fetch_html env url = Inr html
      \<longrightarrow> scrape_links env sid
          = failure LinksOp sid ''TerraformExtractor requires browser mode for link extraction'')"
proof -
  let ?links_msg = "''TerraformExtractor requires browser mode for link extraction''"
  let ?content_msg = "''TerraformExtractor requires browser mode for content extraction''"
  have registered: "get_extractor env ''terraform'' = Inr TerraformExtractor"
    by (simp add: get_extractor_def EXTRACTORS_def)
  have links: "extract_links env TerraformExtractor (Html h) b l = Inl ?links_msg" for h b l
    by (simp add: extract_links_def)
  have content: "extract_content env TerraformExtractor (Html h) c = Inl ?content_msg" for h c
    by (simp add: extract_content_def)
  have scrape_content: "scrape_content env sid path = failure ContentOp sid ?content_msg"
    if "load_site_config env sid = Inr config" "extractor config = ''terraform''"
      "content config = Some cc"
      "(case content_mode cc of None \<Rightarrow> site_mode config | Some m \<Rightarrow> m) = Fetch"
      "fetch_html env (baseUrl config @ path) = Inr html"
  proof -
    from that(2) registered have "get_extractor env (extractor config) = Inr TerraformExtractor"
      by simp
    from scrape_content_traced_configured [OF that(1) this that(3)] that(4,5) content
    show ?thesis
      by (simp add: scrape_content_def page_content_def effective_mode_def)
  qed
  have scrape_links: "scrape_links env sid = failure LinksOp sid ?links_msg"
    if "load_site_config env sid = Inr config" "extractor config = ''terraform''"
      "links config = Some lc" "site_mode config = Fetch" "0 \<le> maxDepth lc"
      "url \<in> set (start_urls config lc)" "fetch_html env url = Inr html"
  proof -
    let ?init = "initial_state (start_urls config lc)"
    from that(6) have seed: "(url, 0) \<in> set (to_visit ?init)" "url \<notin> visited ?init"
      by (auto simp: initial_state_def)
    have "crawl_loop (fetch_html env)
            (\<lambda>html. extract_links env TerraformExtractor (Html html) (baseUrl config) lc)
            (maxDepth lc) ?init = Inl ?links_msg"
    proof (rule crawl_loop_raising)
      show "extract_links env TerraformExtractor (Html h) (baseUrl config) lc = Inl ?links_msg" for h
        by (rule links)
      show "(url, 0) \<in> set (to_visit ?init)" "url \<notin> visited ?init" by (rule seed)+
      show "0 \<le> maxDepth lc" by (rule that(5))
      show "fetch_html env url = Inr html" by (rule that(7))
    qed
    then have "crawl env TerraformExtractor config lc = Inl ?links_msg"
      by (simp add: crawl_def)
    with that(1-4) registered show ?thesis
      by (simp add: scrape_links_def discover_links_def)
  qed
  from links content scrape_content scrape_links show ?thesis by blast
qed

theorem terraform_requires_browser_witness:
  "scrape_content (static_site [(''registry'', Inr registry_site)]
        [(''https://registry.test/docs'', anchor ''/docs/aws'')] []) ''registry'' ''/docs''
     = failure ContentOp ''registry''
         ''TerraformExtractor requires browser mode for content extraction''
   \<and> scrape_links (static_site [(''registry'', Inr registry_site)]
        [(''https://registry.test/docs'', anchor ''/docs/aws'')] []) ''registry''
     = failure LinksOp ''registry''
         ''TerraformExtractor requires browser mode for link extraction''"
proof -
  let ?env = "static_site [(''registry'', Inr registry_site)]
        [(''https://registry.test/docs'', anchor ''/docs/aws'')] [] :: string env"
  let ?lc = "\<lparr>startUrls = [''/docs''], pattern = ''/docs'', waitFor = None, maxDepth = 0\<rparr>"
  let ?cc = "\<lparr>content_mode = None, content_waitFor = None,
               selector = ''#provider-docs-content'', extract_method = InnerHtml\<rparr>"
  have cfg: "load_site_config ?env ''registry'' = Inr registry_site"
    by (simp add: load_site_config_def static_site_def)
  have fields: "extractor registry_site = ''terraform''" "content registry_site = Some ?cc"
    "links registry_site = Some ?lc" "site_mode registry_site = Fetch"
    "baseUrl registry_site = ''https://registry.test''"
    by (simp_all add: registry_site_def)
  have seed: "''https://registry.test/docs'' \<in> set (start_urls registry_site ?lc)"
    by (simp add: start_urls_def fields)
  have page: "fetch_html ?env ''https://registry.test/docs'' = Inr (anchor ''/docs/aws'')"
    by (simp add: static_site_def)
  note inst = terraform_requires_browser [of ?env "anchor ''/docs/aws''" _ ?lc ?cc
      "''registry''" registry_site "''/docs''" "''https://registry.test/docs''"]
  from inst cfg fields seed page show ?thesis by simp
qed

section \<open>Breadth-first order of the frontier\<close>

lemma take_batch_ordered:
  "take_batch md tv vis b = (rest, vis', batch) \<Longrightarrow> sorted (map snd tv) \<Longrightarrow>
   \<exists>removed new. tv = removed @ rest \<and> batch = b @ new
     \<and> set new \<subseteq> set removed
     \<and> sorted (map snd new)
     \<and> (\<forall>(u, d) \<in> set removed. d \<le> md \<longrightarrow> u \<in> vis \<or> (\<exists>e \<le> d. (u, e) \<in> set new))"
proof (induction md tv vis b arbitrary: rest vis' batch rule: take_batch.induct)
  case (1 md vis b)
  then have "[] = [] @ rest \<and> batch = b @ []" by simp
  then show ?case
    by (intro exI [of _ "[]"]) simp
next
  case (2 md url depth tv vis b)
  from "2.prems"(2) have sorted_tail: "sorted (map snd tv)"
    and least: "\<forall>(u, d) \<in> set tv. depth \<le> d"
    by auto
  show ?case
  proof (cases "length b < 10")
    case False
    with "2.prems" have "(url, depth) # tv = [] @ rest \<and> batch = b @ []" by auto
    then show ?thesis
      by (intro exI [of _ "[]"]) simp
  next
    case short: True
    show ?thesis
    proof (cases "url \<notin> vis \<and> depth \<le> md")
      case True
      with short "2.prems"
      have "take_batch md tv (insert url vis) (b @ [(url, depth)]) = (rest, vis', batch)" by simp
      from "2.IH"(1) [OF short True this sorted_tail]
      obtain removed new where r: "tv = removed @ rest" "batch = (b @ [(url, depth)]) @ new"
        "set new \<subseteq> set removed" "sorted (map snd new)"
        "\<forall>(u, d) \<in> set removed. d \<le> md \<longrightarrow> u \<in> insert url vis \<or> (\<exists>e \<le> d. (u, e) \<in> set new)"
        by blast
      let ?removed = "(url, depth) # removed" and ?new = "(url, depth) # new"
      have a: "(url, depth) # tv = ?removed @ rest" using r(1) by simp
      have b: "batch = b @ ?new" using r(2) by simp
      have c: "set ?new \<subseteq> set ?removed" using r(3) by auto
      have d: "sorted (map snd ?new)" using r(1,3,4) least by fastforce
      have e0: "u \<in> vis \<or> (\<exists>e \<le> d. (u, e) \<in> set ?new)"
        if ud: "(u, d) \<in> set ?removed" "d \<le> md" for u d
      proof (cases "u = url")
        case True
        from ud(1) r(1) least have "depth \<le> d" by auto
        with True show ?thesis by auto
      next
        case False
        with ud r(5) show ?thesis by fastforce
      qed
      have e: "\<forall>(u, d) \<in> set ?removed. d \<le> md \<longrightarrow> u \<in> vis \<or> (\<exists>e \<le> d. (u, e) \<in> set ?new)"
        using e0 by (intro ballI) (simp only: split_paired_all case_prod_conv, blast)
      show ?thesis
        apply (rule exI [of _ ?removed])
        apply (rule exI [of _ ?new])
        using a b c d e apply (intro conjI)
            apply simp_all
        done
    next
      case False
      with short "2.prems"
      have "take_batch md tv vis b = (rest, vis', batch)" by auto
      from "2.IH"(2) [OF short False this sorted_tail]
      obtain removed new where r: "tv = removed @ rest" "batch = b @ new"
        "set new \<subseteq> set removed" "sorted (map snd new)"
        "\<forall>(u, d) \<in> set removed. d \<le> md \<longrightarrow> u \<in> vis \<or> (\<exists>e \<le> d. (u, e) \<in> set new)"
        by blast
      let ?removed = "(url, depth) # removed"
      have a: "(url, depth) # tv = ?removed @ rest" using r(1) by simp
      have c: "set new \<subseteq> set ?removed" using r(3) by auto
      have e: "\<forall>(u, d) \<in> set ?removed. d \<le> md \<longrightarrow> u \<in> vis \<or> (\<exists>e \<le> d. (u, e) \<in> set new)"
        using r(5) False by auto
      show ?thesis
        apply (rule exI [of _ ?removed])
        apply (rule exI [of _ new])
        using a c e r(2,4) apply (intro conjI)
            apply simp_all
        done
    qed
  qed
qed

lemma sorted_children:
  "sorted (map snd (batch :: ('a \<times> int) list)) \<Longrightarrow>
   sorted (map snd (concat (map (\<lambda>(u, d). map (\<lambda>l. (l, d + 1)) (f u d)) batch)))"
proof (induction batch)
  case Nil
  show ?case by simp
next
  case (Cons entry batch)
  obtain u d where entry: "entry = (u, d)" by (cases entry)
  from Cons.prems entry have least: "\<forall>(v, e) \<in> set batch. d \<le> e" by auto
  have here: "sorted (map snd (map (\<lambda>l. (l, d + 1)) (f u d)))"
    by (induction "f u d") (simp_all add: sorted_wrt_map comp_def)
  have later: "d + 1 \<le> y"
    if "y \<in> set (map snd (concat (map (\<lambda>(u, d). map (\<lambda>l. (l, d + 1)) (f u d)) batch)))" for y
  proof -
    from that obtain v e where "(v, e) \<in> set batch" "y = e + 1" by auto
    with least show ?thesis by auto
  qed
  from Cons entry show ?case
    using here later by (auto simp: sorted_append)
qed

lemma crawl_step_sorted_cases:
  assumes "crawl_step fetch extr md st = Inr st'" and "sorted (map snd (to_visit st))"
  obtains removed rest batch where
    "to_visit st = removed @ rest"
    "set batch \<subseteq> set removed" "\<forall>(u, d) \<in> set batch. u \<notin> visited st \<and> d \<le> md"
    "visited st' = visited st \<union> fst ` set batch"
    "fetched st' = fetched st @ batch"
    "to_visit st' = rest @ concat (map (\<lambda>(u, d). map (\<lambda>l. (l, d + 1))
                (filter (\<lambda>l. d < md \<and> l \<notin> visited st') (page_links fetch extr u))) batch)"
    "sorted (map snd batch)"
    "\<forall>(u, d) \<in> set removed. d \<le> md \<longrightarrow> u \<in> visited st \<or> (\<exists>e \<le> d. (u, e) \<in> set batch)"
proof -
  obtain rest vis batch where tb: "take_batch md (to_visit st) (visited st) [] = (rest, vis, batch)"
    by (metis prod_cases3)
  from take_batch_spec [OF tb] obtain removed where
    r: "to_visit st = removed @ rest"
       "set batch \<subseteq> set removed" "\<forall>(u, d) \<in> set batch. u \<notin> visited st \<and> d \<le> md"
       "vis = visited st \<union> fst ` set batch"
    by auto
  from take_batch_ordered [OF tb assms(2)] obtain removed' where
    o: "to_visit st = removed' @ rest" "sorted (map snd batch)"
       "\<forall>(u, d) \<in> set removed'. d \<le> md \<longrightarrow> u \<in> visited st \<or> (\<exists>e \<le> d. (u, e) \<in> set batch)"
    by auto
  from r(1) o(1) have same: "removed' = removed" by simp
  have "visited st' = vis \<and> fetched st' = fetched st @ batch
     \<and> to_visit st' = rest @ concat (map (\<lambda>(u, d). map (\<lambda>l. (l, d + 1))
                (filter (\<lambda>l. d < md \<and> l \<notin> vis) (page_links fetch extr u))) batch)"
  proof (cases "batch = []")
    case True
    with assms(1) tb show ?thesis by (auto simp: crawl_step_def)
  next
    case False
    with assms(1) tb obtain queue found where
      pb: "process_batch fetch extr md vis batch (rest, all_links st) = Inr (queue, found)"
      and st': "st' = \<lparr>to_visit = queue, visited = vis, all_links = found,
                         fetched = fetched st @ batch\<rparr>"
      by (auto simp: crawl_step_def split: sum.splits)
    from process_batch_spec [OF pb] st' show ?thesis by simp
  qed
  then have s: "visited st' = visited st \<union> fst ` set batch" "fetched st' = fetched st @ batch"
    "to_visit st' = rest @ concat (map (\<lambda>(u, d). map (\<lambda>l. (l, d + 1))
                (filter (\<lambda>l. d < md \<and> l \<notin> visited st') (page_links fetch extr u))) batch)"
    using r(4) by simp_all
  from r(1,2,3) s o(2) o(3) [unfolded same] show ?thesis by (rule that)
qed

lemma bfs_order:
  assumes "st \<in> crawl_states fetch extr md (initial_state urls)"
  shows "sorted (map snd (to_visit st))
       \<and> (\<forall>(v, e) \<in> set (to_visit st). \<forall>(w, k) \<in> set (to_visit st). k \<le> e + 1)
       \<and> (\<forall>(u, d) \<in> set (fetched st). \<forall>(v, e) \<in> set (to_visit st). d \<le> e)"
  using assms
proof (induction rule: crawl_states.induct)
  case start
  show ?case by (auto simp: initial_state_def comp_def sorted_wrt_map intro: sorted_wrt_true)
next
  case (step st st')
  from step.IH have sorted_queue: "sorted (map snd (to_visit st))"
    and spread: "\<And>v e w k. (v, e) \<in> set (to_visit st) \<Longrightarrow> (w, k) \<in> set (to_visit st) \<Longrightarrow> k \<le> e + 1"
    and behind: "\<And>u d v e. (u, d) \<in> set (fetched st) \<Longrightarrow> (v, e) \<in> set (to_visit st) \<Longrightarrow> d \<le> e"
    by blast+
  from step.hyps(3) sorted_queue obtain removed rest batch where
    s: "to_visit st = removed @ rest" "set batch \<subseteq> set removed"
       "fetched st' = fetched st @ batch"
       "to_visit st' = rest @ concat (map (\<lambda>(u, d). map (\<lambda>l. (l, d + 1))
                (filter (\<lambda>l. d < md \<and> l \<notin> visited st') (page_links fetch extr u))) batch)"
       "sorted (map snd batch)"
    by (rule crawl_step_sorted_cases)
  let ?children = "concat (map (\<lambda>(u, d). map (\<lambda>l. (l, d + 1))
                (filter (\<lambda>l. d < md \<and> l \<notin> visited st') (page_links fetch extr u))) batch)"
  have child: "\<exists>(u, d) \<in> set batch. k = d + 1" if "(w, k) \<in> set ?children" for w k
    using that by auto
  have in_queue: "(u, d) \<in> set (to_visit st)" if "(u, d) \<in> set batch \<or> (u, d) \<in> set rest" for u d
    using that s(1,2) by auto
  have before: "d \<le> e" if "(u, d) \<in> set batch" "(v, e) \<in> set rest" for u d v e
  proof -
    from that s(2) have "(u, d) \<in> set removed" by auto
    with that(2) sorted_queue s(1) show ?thesis
      by (force simp: sorted_append)
  qed
  have "sorted (map snd (rest @ ?children))"
  proof -
    from sorted_queue s(1) have "sorted (map snd rest)" by (simp add: sorted_append)
    moreover from s(5) have "sorted (map snd ?children)" by (rule sorted_children)
    moreover have "e \<le> k" if "(v, e) \<in> set rest" "(w, k) \<in> set ?children" for v e w k
    proof -
      from child [OF that(2)] obtain u d where "(u, d) \<in> set batch" "k = d + 1" by auto
      with spread [of u d v e] in_queue that(1) show ?thesis by auto
    qed
    ultimately show ?thesis by (fastforce simp: sorted_append)
  qed
  then have 1: "sorted (map snd (to_visit st'))" by (simp only: s(4))
  have 2: "k \<le> e + 1" if "(v, e) \<in> set (to_visit st')" "(w, k) \<in> set (to_visit st')" for v e w k
  proof -
    from that(1) s(4) consider "(v, e) \<in> set rest" | "(v, e) \<in> set ?children" by auto
    then show ?thesis
    proof cases
      case 1
      from that(2) s(4) consider "(w, k) \<in> set rest" | "(w, k) \<in> set ?children" by auto
      then show ?thesis
      proof cases
        case 1
        with \<open>(v, e) \<in> set rest\<close> spread in_queue show ?thesis by blast
      next
        case 2
        from child [OF 2] obtain u d where ud: "(u, d) \<in> set batch" "k = d + 1" by auto
        from before [OF ud(1) \<open>(v, e) \<in> set rest\<close>] ud(2) show ?thesis by simp
      qed
    next
      case 2
      from child [OF 2] obtain u d where ud: "(u, d) \<in> set batch" "e = d + 1" by auto
      from that(2) s(4) consider "(w, k) \<in> set rest" | "(w, k) \<in> set ?children" by auto
      then show ?thesis
      proof cases
        case 1
        with spread [of u d w k] in_queue ud show ?thesis by auto
      next
        case 2
        from child [OF 2] obtain u' d' where "(u', d') \<in> set batch" "k = d' + 1" by auto
        with spread [of u d u' d'] in_queue ud show ?thesis by auto
      qed
    qed
  qed
  have 3: "d \<le> e" if "(u, d) \<in> set (fetched st')" "(v, e) \<in> set (to_visit st')" for u d v e
  proof -
    from that(2) s(4) consider "(v, e) \<in> set rest" | "(v, e) \<in> set ?children" by auto
    then show ?thesis
    proof cases
      case 1
      from that(1) s(3) consider "(u, d) \<in> set (fetched st)" | "(u, d) \<in> set batch" by auto
      then show ?thesis
      proof cases
        case 1
        with \<open>(v, e) \<in> set rest\<close> behind in_queue show ?thesis by blast
      next
        case 2
        from before [OF 2 \<open>(v, e) \<in> set rest\<close>] show ?thesis .
      qed
    next
      case 2
      from child [OF 2] obtain u' d' where ud: "(u', d') \<in> set batch" "e = d' + 1" by auto
      from that(1) s(3) consider "(u, d) \<in> set (fetched st)" | "(u, d) \<in> set batch" by auto
      then show ?thesis
      proof cases
        case 1
        with behind [of u d u' d'] in_queue ud show ?thesis by auto
      next
        case 2
        with spread [of u' d' u d] in_queue ud show ?thesis by auto
      qed
    qed
  qed
  from 1 2 3 show ?case by blast
qed

lemma links_of_fetched:
  assumes "st \<in> crawl_states fetch extr md (initial_state urls)"
  shows "all_links st = (\<Union>(u, d) \<in> set (fetched st). set (page_links fetch extr u))"
  using assms
proof (induction rule: crawl_states.induct)
  case start
  show ?case by (simp add: initial_state_def)
next
  case (step st st')
  from step.hyps(3) obtain removed rest batch where
    "to_visit st = removed @ rest" "fetched st' = fetched st @ batch"
    "all_links st' = all_links st \<union> (\<Union>(u, d) \<in> set batch. set (page_links fetch extr u))"
    by (rule crawl_step_cases) (rule that; assumption)
  with step.IH show ?case by auto
qed

lemma bfs_closure:
  assumes "st \<in> crawl_states fetch extr md (initial_state urls)"
  shows "(0 \<le> md \<longrightarrow> (\<forall>s \<in> set urls. (s, 0) \<in> set (fetched st) \<or> (s, 0) \<in> set (to_visit st)))
       \<and> (\<forall>(u, d) \<in> set (fetched st). d < md \<longrightarrow>
            (\<forall>l \<in> set (page_links fetch extr u).
                (\<exists>e \<le> d + 1. (l, e) \<in> set (fetched st)) \<or> (l, d + 1) \<in> set (to_visit st)))"
  using assms
proof (induction rule: crawl_states.induct)
  case start
  show ?case by (auto simp: initial_state_def)
next
  case (step st st')
  from step.hyps have st': "st' \<in> crawl_states fetch extr md (initial_state urls)"
    by (rule crawl_states.step)
  from bfs_order [OF step.hyps(1)] have sorted_queue: "sorted (map snd (to_visit st))"
    and spread: "\<And>v e w k. (v, e) \<in> set (to_visit st) \<Longrightarrow> (w, k) \<in> set (to_visit st) \<Longrightarrow> k \<le> e + 1"
    and behind: "\<And>u d v e. (u, d) \<in> set (fetched st) \<Longrightarrow> (v, e) \<in> set (to_visit st) \<Longrightarrow> d \<le> e"
    by blast+
  from visited_is_fetched [OF step.hyps(1)] have vis: "visited st = fst ` set (fetched st)"
    by simp
  from depth_bounds [OF st'] have nonneg: "\<And>u d. (u, d) \<in> set (fetched st') \<Longrightarrow> 0 \<le> d"
    by blast
  from step.hyps(3) sorted_queue obtain removed rest batch where
    s: "to_visit st = removed @ rest" "set batch \<subseteq> set removed"
       "visited st' = visited st \<union> fst ` set batch"
       "fetched st' = fetched st @ batch"
       "to_visit st' = rest @ concat (map (\<lambda>(u, d). map (\<lambda>l. (l, d + 1))
                (filter (\<lambda>l. d < md \<and> l \<notin> visited st') (page_links fetch extr u))) batch)"
       "\<forall>(u, d) \<in> set removed. d \<le> md \<longrightarrow> u \<in> visited st \<or> (\<exists>e \<le> d. (u, e) \<in> set batch)"
    by (rule crawl_step_sorted_cases)
  have keep: "(\<exists>e \<le> k. (l, e) \<in> set (fetched st')) \<or> (l, k) \<in> set (to_visit st')"
    if "(l, k) \<in> set (to_visit st)" "k \<le> md" for l k
  proof -
    from that(1) s(1) consider "(l, k) \<in> set rest" | "(l, k) \<in> set removed" by auto
    then show ?thesis
    proof cases
      case 1
      with s(5) show ?thesis by simp
    next
      case 2
      with s(6) that(2) consider "l \<in> visited st" | e where "e \<le> k" "(l, e) \<in> set batch"
        by fastforce
      then show ?thesis
      proof cases
        case 1
        with vis obtain e where e: "(l, e) \<in> set (fetched st)" by auto
        from behind [OF e that(1)] e s(4) show ?thesis by auto
      next
        case 2
        with s(4) show ?thesis by auto
      qed
    qed
  qed
  have seeds: "(x, 0) \<in> set (fetched st') \<or> (x, 0) \<in> set (to_visit st')"
    if "0 \<le> md" "x \<in> set urls" for x
  proof -
    from step.IH that consider "(x, 0) \<in> set (fetched st)" | "(x, 0) \<in> set (to_visit st)"
      by blast
    then show ?thesis
    proof cases
      case 1
      with s(4) show ?thesis by simp
    next
      case 2
      from keep [OF 2 that(1)] consider e where "e \<le> 0" "(x, e) \<in> set (fetched st')"
        | "(x, 0) \<in> set (to_visit st')" by blast
      then show ?thesis
      proof cases
        case 1
        with nonneg [of x e] have "e = 0" by simp
        with 1 show ?thesis by simp
      next
        case 2
        then show ?thesis by simp
      qed
    qed
  qed
  have links: "(\<exists>e \<le> d + 1. (l, e) \<in> set (fetched st')) \<or> (l, d + 1) \<in> set (to_visit st')"
    if "(u, d) \<in> set (fetched st')" "d < md" "l \<in> set (page_links fetch extr u)" for u d l
  proof -
    from that(1) s(4) consider "(u, d) \<in> set (fetched st)" | "(u, d) \<in> set batch" by auto
    then show ?thesis
    proof cases
      case 1
      with step.IH that(2,3) consider e where "e \<le> d + 1" "(l, e) \<in> set (fetched st)"
        | "(l, d + 1) \<in> set (to_visit st)" by blast
      then show ?thesis
      proof cases
        case 1
        with s(4) show ?thesis by auto
      next
        case 2
        from that(2) have "d + 1 \<le> md" by simp
        from keep [OF 2 this] show ?thesis .
      qed
    next
      case 2
      with s(1,2) have queued: "(u, d) \<in> set (to_visit st)" by auto
      show ?thesis
      proof (cases "l \<in> visited st'")
        case False
        from in_children [OF 2 that(2,3) False] s(5) show ?thesis by simp
      next
        case True
        with s(3) vis consider e where "(l, e) \<in> set (fetched st)"
          | e where "(l, e) \<in> set batch" by auto
        then show ?thesis
        proof cases
          case 1
          from behind [OF 1 queued] have "e \<le> d + 1" by simp
          moreover from 1 s(4) have "(l, e) \<in> set (fetched st')" by simp
          ultimately show ?thesis by blast
        next
          case 2
          with s(1,2) have "(l, e) \<in> set (to_visit st)" by auto
          from spread [OF queued this] have "e \<le> d + 1" .
          moreover from 2 s(4) have "(l, e) \<in> set (fetched st')" by simp
          ultimately show ?thesis by blast
        qed
      qed
    qed
  qed
  from seeds links show ?case by blast
qed

lemma crawl_loop_exact:
  assumes "crawl_loop fetch extr md (initial_state urls) = Inr final"
  shows "to_visit final = []
       \<and> visited final = within_hops (links_to fetch extr) urls md
       \<and> fst ` set (fetched final) = within_hops (links_to fetch extr) urls md
       \<and> all_links final = links_to fetch extr `` within_hops (links_to fetch extr) urls md"
proof -
  let ?R = "links_to fetch extr"
  from crawl_loop_final [OF assms crawl_states.start]
  have final: "final \<in> crawl_states fetch extr md (initial_state urls)" and drained: "to_visit final = []"
    by simp_all
  from visited_is_fetched [OF final] have vis: "visited final = fst ` set (fetched final)" by simp
  have sound: "u \<in> within_hops ?R urls md" if "(u, d) \<in> set (fetched final)" for u d
  proof -
    from depth_bounds [OF final] that have d: "0 \<le> d" "d \<le> md" by blast+
    from hops_invariant [OF final] that obtain s where s: "s \<in> set urls" "(s, u) \<in> ?R ^^ nat d"
      by blast
    from d have "int (nat d) \<le> md" by simp
    with s show ?thesis unfolding within_hops_def by blast
  qed
  have complete: "\<exists>d \<le> int n. (u, d) \<in> set (fetched final)"
    if "s \<in> set urls" "(s, u) \<in> ?R ^^ n" "int n \<le> md" for s u n
    using that(2,3)
  proof (induction n arbitrary: u)
    case 0
    then have "u = s" "0 \<le> md" by simp_all
    with bfs_closure [OF final] that(1) drained show ?case by auto
  next
    case (Suc n)
    from Suc.prems(1) obtain v where v: "(s, v) \<in> ?R ^^ n" "(v, u) \<in> ?R" by auto
    from Suc.prems(2) have "int n \<le> md" by simp
    from Suc.IH [OF v(1) this] obtain d where d: "d \<le> int n" "(v, d) \<in> set (fetched final)"
      by blast
    with Suc.prems(2) have "d < md" by simp
    moreover from v(2) have "u \<in> set (page_links fetch extr v)" by (simp add: links_to_def)
    ultimately obtain e where e: "e \<le> d + 1" "(u, e) \<in> set (fetched final)"
      using bfs_closure [OF final] d(2) drained by fastforce
    from e(1) d(1) have "e \<le> int (Suc n)" by simp
    with e(2) show ?case by blast
  qed
  have fetched: "fst ` set (fetched final) = within_hops ?R urls md"
  proof (intro set_eqI iffI)
    fix u assume "u \<in> fst ` set (fetched final)"
    then show "u \<in> within_hops ?R urls md" using sound by auto
  next
    fix u assume "u \<in> within_hops ?R urls md"
    then obtain s n where "s \<in> set urls" "int n \<le> md" "(s, u) \<in> ?R ^^ n"
      by (auto simp: within_hops_def)
    from complete [OF this(1,3,2)] show "u \<in> fst ` set (fetched final)" by force
  qed
  have "all_links final = ?R `` (fst ` set (fetched final))"
    by (force simp: links_of_fetched [OF final] links_to_def)
  with fetched vis drained show ?thesis by simp
qed

section \<open>The depth bound\<close>

lemma boundary_entry_is_taken:
  "u \<notin> vis \<Longrightarrow> take_batch md ((u, md) # rest) vis [] = take_batch md rest (insert u vis) [(u, md)]"
  by simp

lemma boundary_entry_adds_links:
  "fetch u = Inr html \<Longrightarrow> extr html = Inr found \<Longrightarrow>
   process_batch fetch extr md vis [(u, md)] (queue, acc) = Inr (queue, acc \<union> set found)"
  by (simp add: fold_add_link)

lemma one_more_hop:
  "R `` within_hops R seeds k \<subseteq> within_hops R seeds (k + 1)"
proof
  fix l assume "l \<in> R `` within_hops R seeds k"
  then obtain u s n where "(u, l) \<in> R" "s \<in> set seeds" "int n \<le> k" "(s, u) \<in> R ^^ n"
    by (auto simp: within_hops_def)
  then have "(s, l) \<in> R ^^ Suc n" "int (Suc n) \<le> k + 1" by auto
  with \<open>s \<in> set seeds\<close> show "l \<in> within_hops R seeds (k + 1)"
    unfolding within_hops_def by blast
qed

text \<open>
  C2. In the fetch-mode loop every entry that is ever fetched has a depth from 0 to
  \<open>max_depth\<close>, and so has every entry that is ever on the frontier when \<open>max_depth\<close> is
  not negative. An unvisited entry at depth \<open>max_depth\<close> is taken into the batch, and
  processing it adds its links to the result and leaves the frontier as it was. So in a
  run that ends, the URLs fetched are exactly those within \<open>max_depth\<close> hops of a seed,
  those at the boundary included, and the result is exactly the set of links of the
  fetched pages: every link in it is within \<open>max_depth + 1\<close> hops of a seed.
\<close>

theorem depth_boundary:
  "(crawl_loop fetch extr md (initial_state urls) = Inr final \<longrightarrow>
      fst ` set (fetched final) = within_hops (links_to fetch extr) urls md
      \<and> all_links final = links_to fetch extr `` within_hops (links_to fetch extr) urls md
      \<and> all_links final \<subseteq> within_hops (links_to fetch extr) urls (md + 1))
   \<and> (\<forall>st \<in> crawl_states fetch extr md (initial_state urls).
        (\<forall>(u, d) \<in> set (fetched st). 0 \<le> d \<and> d \<le> md)
        \<and> (\<forall>(u, d) \<in> set (to_visit st). 0 \<le> d \<and> (0 \<le> md \<longrightarrow> d \<le> md)))
   \<and> (\<forall>u vis rest. u \<notin> vis \<longrightarrow>
        take_batch md ((u, md) # rest) vis [] = take_batch md rest (insert u vis) [(u, md)])
   \<and> (\<forall>u html found vis queue acc. fetch u = Inr html \<and> extr html = Inr found \<longrightarrow>
        process_batch fetch extr md vis [(u, md)] (queue, acc) = Inr (queue, acc \<union> set found))"
proof -
  let ?R = "links_to fetch extr"
  have exact: "fst ` set (fetched final) = within_hops ?R urls md
      \<and> all_links final = ?R `` within_hops ?R urls md
      \<and> all_links final \<subseteq> within_hops ?R urls (md + 1)"
    if run: "crawl_loop fetch extr md (initial_state urls) = Inr final"
  proof -
    from crawl_loop_exact [OF run]
    have e: "fst ` set (fetched final) = within_hops ?R urls md"
      "all_links final = ?R `` within_hops ?R urls md"
      by simp_all
    from e(2) one_more_hop [of ?R urls md]
    have "all_links final \<subseteq> within_hops ?R urls (md + 1)" by simp
    with e show ?thesis by simp
  qed
  have depths: "\<forall>st \<in> crawl_states fetch extr md (initial_state urls).
        (\<forall>(u, d) \<in> set (fetched st). 0 \<le> d \<and> d \<le> md)
        \<and> (\<forall>(u, d) \<in> set (to_visit st). 0 \<le> d \<and> (0 \<le> md \<longrightarrow> d \<le> md))"
  proof (rule ballI)
    fix st assume "st \<in> crawl_states fetch extr md (initial_state urls)"
    from depth_bounds [OF this]
    show "(\<forall>(u, d) \<in> set (fetched st). 0 \<le> d \<and> d \<le> md)
        \<and> (\<forall>(u, d) \<in> set (to_visit st). 0 \<le> d \<and> (0 \<le> md \<longrightarrow> d \<le> md))"
      by simp
  qed
  have taken: "\<forall>u vis rest. u \<notin> vis \<longrightarrow>
            take_batch md ((u, md) # rest) vis [] = take_batch md rest (insert u vis) [(u, md)]"
    by (intro allI impI) (rule boundary_entry_is_taken)
  have added: "\<forall>u html found vis queue acc. fetch u = Inr html \<and> extr html = Inr found \<longrightarrow>
            process_batch fetch extr md vis [(u, md)] (queue, acc) = Inr (queue, acc \<union> set found)"
    by (intro allI impI) (elim conjE, rule boundary_entry_adds_links)
  show ?thesis
    apply (rule conjI, rule impI, erule exact)
    apply (rule conjI, rule depths)
    apply (rule conjI, rule taken)
    apply (rule added)
    done
qed

theorem depth_boundary_witness:
  "crawl_loop (fetch_html chain_site) chain_extract 1 (initial_state [''https://docs-a.test/guide/a''])
     = Inr \<lparr>to_visit = [],
            visited = {''https://docs-a.test/guide/a'', ''https://docs-a.test/guide/b''},
            all_links = {''https://docs-a.test/guide/b'', ''https://docs-a.test/guide/c''},
            fetched = [(''https://docs-a.test/guide/a'', 0), (''https://docs-a.test/guide/b'', 1)]\<rparr>
   \<and> within_hops (links_to (fetch_html chain_site) chain_extract) [''https://docs-a.test/guide/a''] 1
     = {''https://docs-a.test/guide/a'', ''https://docs-a.test/guide/b''}
   \<and> links_to (fetch_html chain_site) chain_extract
        `` within_hops (links_to (fetch_html chain_site) chain_extract)
             [''https://docs-a.test/guide/a''] 1
     = {''https://docs-a.test/guide/b'', ''https://docs-a.test/guide/c''}
   \<and> ''https://docs-a.test/guide/c''
     \<notin> within_hops (links_to (fetch_html chain_site) chain_extract)
         [''https://docs-a.test/guide/a''] 1
   \<and> fetch_html chain_site ''https://docs-a.test/guide/c'' = Inr (anchor ''/guide/d'')"
proof -
  let ?final = "\<lparr>to_visit = [],
            visited = {''https://docs-a.test/guide/a'', ''https://docs-a.test/guide/b''},
            all_links = {''https://docs-a.test/guide/b'', ''https://docs-a.test/guide/c''},
            fetched = [(''https://docs-a.test/guide/a'', 0), (''https://docs-a.test/guide/b'', 1)]\<rparr>"
  have run: "crawl_loop (fetch_html chain_site) chain_extract 1
               (initial_state [''https://docs-a.test/guide/a'']) = Inr ?final"
    by code_simp
  have page: "fetch_html chain_site ''https://docs-a.test/guide/c'' = Inr (anchor ''/guide/d'')"
    by (simp add: chain_site_def static_site_def)
  from depth_boundary [of "fetch_html chain_site" chain_extract 1
      "[''https://docs-a.test/guide/a'']" ?final, THEN conjunct1] run
  have "fst ` set (fetched ?final)
      = within_hops (links_to (fetch_html chain_site) chain_extract) [''https://docs-a.test/guide/a''] 1"
    "all_links ?final = links_to (fetch_html chain_site) chain_extract
        `` within_hops (links_to (fetch_html chain_site) chain_extract)
             [''https://docs-a.test/guide/a''] 1"
    by simp_all
  then have "within_hops (links_to (fetch_html chain_site) chain_extract) [''https://docs-a.test/guide/a''] 1
     = {''https://docs-a.test/guide/a'', ''https://docs-a.test/guide/b''}"
    "links_to (fetch_html chain_site) chain_extract
        `` within_hops (links_to (fetch_html chain_site) chain_extract)
             [''https://docs-a.test/guide/a''] 1
     = {''https://docs-a.test/guide/b'', ''https://docs-a.test/guide/c''}"
    by simp_all
  with run page show ?thesis by simp
qed

section \<open>Failed fetches\<close>






section \<open>The scenario of the site docs-a\<close>

lemma collect_links_image:
  assumes "\<And>h. h \<in> set hrefs \<Longrightarrow>
             resolve_link env base h = Inr (r h) \<and> keep_link env base pat (r h) = Inr (k h)"
  shows "collect_links env base pat hrefs acc = Inr (acc \<union> r ` {h \<in> set hrefs. k h})"
  using assms
proof (induction hrefs arbitrary: acc)
  case Nil
  show ?case by simp
next
  case (Cons h hrefs)
  from Cons.prems [of h] have h: "resolve_link env base h = Inr (r h)"
    "keep_link env base pat (r h) = Inr (k h)" by simp_all
  have "collect_links env base pat hrefs acc' = Inr (acc' \<union> r ` {h \<in> set hrefs. k h})" for acc'
    by (rule Cons.IH) (simp add: Cons.prems)
  with h show ?case by auto
qed

lemma docs_a_home_links:
  assumes "cls \<noteq> TerraformExtractor" and "pattern lc = ''/guide''"
    and "set (find_hrefs html) = {''/guide/intro'', ''/blog'', ''https://other.test/guide/x''}"
    and "urlparse env ''https://docs-a.test'' = Inr \<lparr>scheme = ''https'', netloc = ''docs-a.test''\<rparr>"
    and "urlparse env ''https://docs-a.test/guide/intro''
           = Inr \<lparr>scheme = ''https'', netloc = ''docs-a.test''\<rparr>"
    and "urlparse env ''https://other.test/guide/x''
           = Inr \<lparr>scheme = ''https'', netloc = ''other.test''\<rparr>"
  shows "extract_links env cls (Html html) ''https://docs-a.test'' lc
           = Inr [''https://docs-a.test/guide/intro'']"
proof -
  let ?base = "''https://docs-a.test''"
  define r where "r h = (if h = ''/guide/intro'' then ''https://docs-a.test/guide/intro''
      else if h = ''/blog'' then ''https://docs-a.test/blog'' else h)" for h :: string
  define k where "k h = (h = ''/guide/intro'')" for h :: string
  have clean: "clean_url ''/guide/intro'' = ''/guide/intro''" "clean_url ''/blog'' = ''/blog''"
    "clean_url ''https://other.test/guide/x'' = ''https://other.test/guide/x''"
    by code_simp+
  have pat: "contains ''/guide'' ''https://docs-a.test/guide/intro''"
    "\<not> contains ''/guide'' ''https://docs-a.test/blog''"
    "contains ''/guide'' ''https://other.test/guide/x''"
    by code_simp+
  have each: "resolve_link env ?base h = Inr (r h) \<and> keep_link env ?base ''/guide'' (r h) = Inr (k h)"
    if "h \<in> set (find_hrefs html)" for h
  proof -
    from that assms(3) consider "h = ''/guide/intro''" | "h = ''/blog''"
      | "h = ''https://other.test/guide/x''" by auto
    then show ?thesis
    proof cases
      case 1
      then show ?thesis
        by (simp add: resolve_link_def keep_link_def clean r_def k_def pat assms(4,5))
    next
      case 2
      then show ?thesis
        by (simp add: resolve_link_def keep_link_def clean r_def k_def pat assms(4))
    next
      case 3
      then show ?thesis
        by (simp add: resolve_link_def keep_link_def clean r_def k_def pat assms(4,6))
    qed
  qed
  have "collect_links env ?base ''/guide'' (find_hrefs html) {}
          = Inr ({} \<union> r ` {h \<in> set (find_hrefs html). k h})"
    by (rule collect_links_image) (rule each)
  moreover have "r ` {h \<in> set (find_hrefs html). k h} = {''https://docs-a.test/guide/intro''}"
    by (auto simp: assms(3) r_def k_def)
  ultimately have "extract_links_from_html env html ?base ''/guide''
      = Inr [''https://docs-a.test/guide/intro'']"
    by (simp add: extract_links_from_html_def)
  with assms(1,2) show ?thesis
    by (cases cls) (simp_all add: extract_links_def)
qed

text \<open>
  C1, as amended. Site docs-a in fetch mode with an extractor of the default family, base
  URL \<^verbatim>\<open>https://docs-a.test\<close>, the single seed path \<^verbatim>\<open>""\<close>, pattern \<^verbatim>\<open>/guide\<close> and
  maximum depth 1. If the page at the base URL holds exactly the links
  \<^verbatim>\<open>/guide/intro\<close>, \<^verbatim>\<open>/blog\<close> and \<^verbatim>\<open>https://other.test/guide/x\<close>, and the page at
  \<^verbatim>\<open>https://docs-a.test/guide/intro\<close>, which the engine fetches next at depth 1, fails to
  load or yields no link other than itself, then the discovery succeeds with the
  one-element data \<^verbatim>\<open>["https://docs-a.test/guide/intro"]\<close>. The URL library is assumed
  to split the three URLs as Python's does.
\<close>

theorem docs_a_scenario:
  assumes "load_site_config env sid = Inr config"
    and "get_extractor env (extractor config) = Inr cls" and "cls \<noteq> TerraformExtractor"
    and "baseUrl config = ''https://docs-a.test''" and "site_mode config = Fetch"
    and "links config = Some lc"
    and "startUrls lc = ['''']" and "pattern lc = ''/guide''" and "maxDepth lc = 1"
    and "fetch_html env ''https://docs-a.test'' = Inr html"
    and "set (find_hrefs html) = {''/guide/intro'', ''/blog'', ''https://other.test/guide/x''}"
    and "urlparse env ''https://docs-a.test'' = Inr \<lparr>scheme = ''https'', netloc = ''docs-a.test''\<rparr>"
    and "urlparse env ''https://docs-a.test/guide/intro''
           = Inr \<lparr>scheme = ''https'', netloc = ''docs-a.test''\<rparr>"
    and "urlparse env ''https://other.test/guide/x''
           = Inr \<lparr>scheme = ''https'', netloc = ''other.test''\<rparr>"
    and "(\<exists>e. fetch_html env ''https://docs-a.test/guide/intro'' = Inl e)
         \<or> (\<exists>html' found. fetch_html env ''https://docs-a.test/guide/intro'' = Inr html'
               \<and> extract_links env cls (Html html') ''https://docs-a.test'' lc = Inr found
               \<and> set found \<subseteq> {''https://docs-a.test/guide/intro''})"
  shows "scrape_links env sid
           = \<lparr>site = sid, operation = LinksOp, success = True,
              data = [''https://docs-a.test/guide/intro''], error = None\<rparr>"
proof -
  let ?base = "''https://docs-a.test''" and ?intro = "''https://docs-a.test/guide/intro''"
  let ?fetch = "fetch_html env"
  let ?extr = "\<lambda>html. extract_links env cls (Html html) ?base lc"
  have home: "?extr html = Inr [?intro]"
    by (rule docs_a_home_links) (fact assms(3) assms(8) assms(11-14))+
  have seeds: "start_urls config lc = [?base]"
    by (simp add: start_urls_def assms(4,7))
  let ?st0 = "initial_state [?base]"
  let ?st1 = "\<lparr>to_visit = [(?intro, 1)], visited = {?base}, all_links = {?intro},
               fetched = [(?base, 0)]\<rparr>"
  let ?st2 = "\<lparr>to_visit = [], visited = {?intro, ?base}, all_links = {?intro},
               fetched = [(?base, 0), (?intro, 1)]\<rparr>"
  have step1: "crawl_step ?fetch ?extr 1 ?st0 = Inr ?st1"
    by (simp add: crawl_step_def initial_state_def assms(10) home add_link_def)
  have batch2: "process_batch ?fetch ?extr 1 {?intro, ?base} [(?intro, 1)] ([], {?intro})
      = Inr ([], {?intro})"
    using assms(15)
  proof (elim disjE exE conjE)
    fix e assume "?fetch ?intro = Inl e"
    then show ?thesis by simp
  next
    fix html' found
    assume "?fetch ?intro = Inr html'" "?extr html' = Inr found" "set found \<subseteq> {?intro}"
    then show ?thesis by (auto simp: fold_add_link)
  qed
  have step2: "crawl_step ?fetch ?extr 1 ?st1 = Inr ?st2"
    by (simp add: crawl_step_def batch2 del: process_batch.simps)
  have loop2: "crawl_loop ?fetch ?extr 1 ?st2 = Inr ?st2"
    by (subst crawl_loop.simps) simp
  have loop1: "crawl_loop ?fetch ?extr 1 ?st1 = Inr ?st2"
    by (subst crawl_loop.simps) (simp add: step2 loop2)
  have "to_visit ?st0 \<noteq> []" by (simp add: initial_state_def)
  then have "crawl_loop ?fetch ?extr 1 ?st0 = Inr ?st2"
    by (subst crawl_loop.simps) (simp add: step1 loop1)
  then have "crawl env cls config lc = Inr ?st2"
    by (simp add: crawl_def seeds assms(4,9))
  with assms(1,2,5,6) show ?thesis
    by (simp add: scrape_links_def discover_links_def)
qed

theorem docs_a_scenario_witness:
  "fetch_html lone_site ''https://docs-a.test'' = Inr docs_a_home
   \<and> set (find_hrefs docs_a_home) = {''/guide/intro'', ''/blog'', ''https://other.test/guide/x''}
   \<and> fetch_html lone_site ''https://docs-a.test/guide/intro'' = Inl ''Client error 404 Not Found''
   \<and> scrape_links lone_site ''docs-a''
       = \<lparr>site = ''docs-a'', operation = LinksOp, success = True,
          data = [''https://docs-a.test/guide/intro''], error = None\<rparr>"
proof -
  let ?config = "docs_a 1 ['''']" and ?lc = "guide_links 1 ['''']"
  have cfg: "load_site_config lone_site ''docs-a'' = Inr ?config"
    by (simp add: load_site_config_def lone_site_def static_site_def)
  have cls: "get_extractor lone_site (extractor ?config) = Inr DefaultExtractor"
    "DefaultExtractor \<noteq> TerraformExtractor"
    by (simp_all add: get_extractor_def EXTRACTORS_def docs_a_def)
  have fields: "baseUrl ?config = ''https://docs-a.test''" "site_mode ?config = Fetch"
    "links ?config = Some ?lc" "startUrls ?lc = ['''']" "pattern ?lc = ''/guide''"
    "maxDepth ?lc = 1"
    by (simp_all add: docs_a_def guide_links_def)
  have home: "fetch_html lone_site ''https://docs-a.test'' = Inr docs_a_home"
    by (simp add: lone_site_def static_site_def)
  have hrefs: "set (find_hrefs docs_a_home)
      = {''/guide/intro'', ''/blog'', ''https://other.test/guide/x''}"
    by code_simp
  have parsed: "urlparse lone_site ''https://docs-a.test''
        = Inr \<lparr>scheme = ''https'', netloc = ''docs-a.test''\<rparr>"
    "urlparse lone_site ''https://docs-a.test/guide/intro''
        = Inr \<lparr>scheme = ''https'', netloc = ''docs-a.test''\<rparr>"
    "urlparse lone_site ''https://other.test/guide/x''
        = Inr \<lparr>scheme = ''https'', netloc = ''other.test''\<rparr>"
    by code_simp+
  have missing: "fetch_html lone_site ''https://docs-a.test/guide/intro''
      = Inl ''Client error 404 Not Found''"
    by (simp add: lone_site_def static_site_def)
  then have next_page: "(\<exists>e. fetch_html lone_site ''https://docs-a.test/guide/intro'' = Inl e)
         \<or> (\<exists>html' found. fetch_html lone_site ''https://docs-a.test/guide/intro'' = Inr html'
               \<and> extract_links lone_site DefaultExtractor (Html html') ''https://docs-a.test'' ?lc
                   = Inr found
               \<and> set found \<subseteq> {''https://docs-a.test/guide/intro''})"
    by simp
  from docs_a_scenario [OF cfg cls fields home hrefs parsed next_page] home hrefs missing
  show ?thesis by simp
qed

theorem docs_a_scenario_counterexample:
  "fetch_html deep_site ''https://docs-a.test'' = Inr docs_a_home
   \<and> set (find_hrefs docs_a_home) = {''/guide/intro'', ''/blog'', ''https://other.test/guide/x''}
   \<and> load_site_config deep_site ''docs-a'' = Inr (docs_a 1 [''''])
   \<and> scrape_links deep_site ''docs-a''
       = \<lparr>site = ''docs-a'', operation = LinksOp, success = True,
          data = [''https://docs-a.test/guide/deep'', ''https://docs-a.test/guide/intro''],
          error = None\<rparr>
   \<and> data (scrape_links deep_site ''docs-a'') \<noteq> [''https://docs-a.test/guide/intro'']"
  by code_simp

section \<open>The visited set\<close>







end
